theory Spec2Isabelle
  imports Complex_Main
begin

section \<open>Numbers of the program\<close>

text \<open>
  The program computes with JavaScript numbers, IEEE 754 doubles. The Kaplan-Meier loop
  and the data generators are modelled with exact real arithmetic; a field that may be
  absent from an object (\<^verbatim>\<open>undefined\<close>) is an \<open>option\<close>. The linear estimator and the
  Poisson sampler are modelled with double arithmetic: every operation returns the
  double nearest to the exact result, as defined below.
\<close>

text \<open>
  \<^verbatim>\<open>a || b\<close> on two possibly absent numbers: \<^verbatim>\<open>a\<close> when it is truthy
  (present and not zero), \<^verbatim>\<open>b\<close> otherwise.
\<close>

definition jsOr :: "real option \<Rightarrow> real option \<Rightarrow> real option" where
  "jsOr a b = (case a of None \<Rightarrow> b | Some v \<Rightarrow> if v = 0 then b else Some v)"

subsection \<open>Doubles\<close>

text \<open>
  A number is a finite double, NaN or an infinity. \<^verbatim>\<open>undefined\<close> in arithmetic is
  NaN. Negative zero is not modelled: dividing by a zero gives the sign of the numerator.
\<close>

datatype jsnum = Num real | NaN | PosInf | NegInf

text \<open>\<open>pow2 k\<close> is \<open>2\<^sup>k\<close> for an integer \<open>k\<close>.\<close>

definition pow2 :: "int \<Rightarrow> real" where
  "pow2 k = (if 0 \<le> k then 2 ^ nat k else 1 / 2 ^ nat (- k))"

text \<open>
  The exponent of the binade of \<open>x\<close>, not below that of the subnormal numbers, and the
  distance between neighbouring doubles there (53 significant bits).
\<close>

definition expo :: "real \<Rightarrow> int" where
  "expo x = max \<lfloor>log 2 \<bar>x\<bar>\<rfloor> (- 1022)"

definition ulp :: "real \<Rightarrow> real" where
  "ulp x = pow2 (expo x - 52)"

text \<open>Rounding to the nearest integer, a tie to the even one.\<close>

definition roundEven :: "real \<Rightarrow> int" where
  "roundEven q =
     (let f = \<lfloor>q\<rfloor>; d = q - of_int f
      in if d < 1 / 2 then f else if 1 / 2 < d then f + 1 else if even f then f else f + 1)"

text \<open>
  The double nearest to the real number \<open>x\<close> (round to nearest, ties to even): an
  infinity when the rounded value reaches \<open>2\<^sup>1\<^sup>0\<^sup>2\<^sup>4\<close>, zero when \<open>x\<close> is at most half of the
  smallest subnormal \<open>2\<^sup>-\<^sup>1\<^sup>0\<^sup>7\<^sup>4\<close>.
\<close>

definition fl64 :: "real \<Rightarrow> jsnum" where
  "fl64 x =
     (if x = 0 then Num 0
      else let r = of_int (roundEven (x / ulp x)) * ulp x
           in if pow2 1024 \<le> \<bar>r\<bar> then (if 0 < x then PosInf else NegInf) else Num r)"

text \<open>A real number is a double when rounding leaves it unchanged.\<close>

definition isDouble :: "real \<Rightarrow> bool" where
  "isDouble v \<longleftrightarrow> fl64 v = Num v"

fun isFinite :: "jsnum \<Rightarrow> bool" where
  "isFinite (Num a) = True"
| "isFinite a = False"

text \<open>The operators \<^verbatim>\<open>-a\<close>, \<^verbatim>\<open>a + b\<close>, \<^verbatim>\<open>a - b\<close>, \<^verbatim>\<open>a * b\<close>, \<^verbatim>\<open>a / b\<close> and \<^verbatim>\<open>a > b\<close>.\<close>

fun jsNeg :: "jsnum \<Rightarrow> jsnum" where
  "jsNeg (Num a) = Num (- a)"
| "jsNeg NaN = NaN"
| "jsNeg PosInf = NegInf"
| "jsNeg NegInf = PosInf"

fun jsAdd :: "jsnum \<Rightarrow> jsnum \<Rightarrow> jsnum" where
  "jsAdd (Num a) (Num b) = fl64 (a + b)"
| "jsAdd NaN b = NaN"
| "jsAdd a NaN = NaN"
| "jsAdd PosInf NegInf = NaN"
| "jsAdd NegInf PosInf = NaN"
| "jsAdd PosInf b = PosInf"
| "jsAdd a PosInf = PosInf"
| "jsAdd NegInf b = NegInf"
| "jsAdd a NegInf = NegInf"

definition jsSub :: "jsnum \<Rightarrow> jsnum \<Rightarrow> jsnum" where
  "jsSub a b = jsAdd a (jsNeg b)"

fun jsSign :: "jsnum \<Rightarrow> int" where
  "jsSign (Num a) = (if a = 0 then 0 else if a > 0 then 1 else - 1)"
| "jsSign NaN = 0"
| "jsSign PosInf = 1"
| "jsSign NegInf = - 1"

definition jsInf :: "int \<Rightarrow> jsnum" where
  "jsInf s = (if s = 0 then NaN else if s > 0 then PosInf else NegInf)"

fun jsMul :: "jsnum \<Rightarrow> jsnum \<Rightarrow> jsnum" where
  "jsMul (Num a) (Num b) = fl64 (a * b)"
| "jsMul NaN b = NaN"
| "jsMul a NaN = NaN"
| "jsMul a b = jsInf (jsSign a * jsSign b)"

fun jsDiv :: "jsnum \<Rightarrow> jsnum \<Rightarrow> jsnum" where
  "jsDiv (Num a) (Num b) = (if b = 0 then jsInf (jsSign (Num a)) else fl64 (a / b))"
| "jsDiv NaN b = NaN"
| "jsDiv a NaN = NaN"
| "jsDiv (Num a) b = Num 0"
| "jsDiv a (Num b) = (if b < 0 then jsNeg a else a)"
| "jsDiv a b = NaN"

fun jsGreater :: "jsnum \<Rightarrow> jsnum \<Rightarrow> bool" where
  "jsGreater (Num a) (Num b) = (b < a)"
| "jsGreater NaN b = False"
| "jsGreater a NaN = False"
| "jsGreater PosInf PosInf = False"
| "jsGreater PosInf b = True"
| "jsGreater a PosInf = False"
| "jsGreater NegInf b = False"
| "jsGreater a NegInf = True"

text \<open>
  \<^verbatim>\<open>Math.pow(v, 2)\<close> and \<^verbatim>\<open>Math.exp(v)\<close>, which belong to the language and not to the
  repository: modelled as the double nearest to the exact square and exponential.
\<close>

fun jsSquare :: "jsnum \<Rightarrow> jsnum" where
  "jsSquare (Num a) = fl64 (a ^ 2)"
| "jsSquare NaN = NaN"
| "jsSquare a = PosInf"

fun mathExp :: "jsnum \<Rightarrow> jsnum" where
  "mathExp (Num a) = fl64 (exp a)"
| "mathExp NaN = NaN"
| "mathExp PosInf = PosInf"
| "mathExp NegInf = Num 0"

section \<open>Kaplan-Meier estimator (CoxRegression.js, Home.js)\<close>

text \<open>
  The records of the survival examples: \<^verbatim>\<open>{age, stage, survivalTime, censored}\<close> and
  \<^verbatim>\<open>{ejectionFraction, nyhaClass, eventTime, censored}\<close>. The estimator reads the
  fields \<^verbatim>\<open>survivalTime\<close>, \<^verbatim>\<open>eventTime\<close> and \<^verbatim>\<open>censored\<close> only.
\<close>

record event =
  survivalTime :: "real option"
  eventTime :: "real option"
  censored :: bool

text \<open>The objects pushed to \<^verbatim>\<open>survival\<close>: \<^verbatim>\<open>{time, probability, censored}\<close>.\<close>

record survivalPoint =
  time :: "real option"
  probability :: real
  censoredPt :: bool

text \<open>
  The body of \<^verbatim>\<open>data.forEach((d, i) => {...})\<close> with the three variables it mutates
  (\<^verbatim>\<open>n\<close>, \<^verbatim>\<open>currentProb\<close>, \<^verbatim>\<open>survival\<close>) passed as state. The two copies of
  the loop differ in the expression stored in \<^verbatim>\<open>time\<close> only, which is the parameter
  \<open>tm\<close>. Both callers start with \<^verbatim>\<open>n = data.length\<close>, so \<^verbatim>\<open>n\<close> is at least 1
  whenever the body divides by it.
\<close>

fun kmForEach ::
  "('a event_scheme \<Rightarrow> real option) \<Rightarrow> 'a event_scheme list \<Rightarrow> int \<Rightarrow> real
     \<Rightarrow> survivalPoint list \<Rightarrow> survivalPoint list" where
  "kmForEach tm [] n currentProb survival = survival"
| "kmForEach tm (d # ds) n currentProb survival =
     (let currentProb' =
            (if \<not> censored d then currentProb * ((of_int n - 1) / of_int n)
             else currentProb);
          survival' = survival @
            [\<lparr>time = tm d, probability = currentProb', censoredPt = censored d\<rparr>]
      in kmForEach tm ds (n - 1) currentProb' survival')"

text \<open>\<^verbatim>\<open>d.survivalTime || d.eventTime\<close>\<close>

definition recordTime :: "'a event_scheme \<Rightarrow> real option" where
  "recordTime d = jsOr (survivalTime d) (eventTime d)"

text \<open>\<^verbatim>\<open>function calculateKaplanMeier(data)\<close> of CoxRegression.js.\<close>

definition calculateKaplanMeier :: "'a event_scheme list \<Rightarrow> survivalPoint list" where
  "calculateKaplanMeier data = kmForEach recordTime data (int (length data)) 1 []"

text \<open>The inline copy in \<^verbatim>\<open>Home\<close> (branch \<^verbatim>\<open>regressionKey === 'cox'\<close>).\<close>

definition homeKaplanMeier :: "'a event_scheme list \<Rightarrow> survivalPoint list" where
  "homeKaplanMeier data = kmForEach survivalTime data (int (length data)) 1 []"

text \<open>
  The update of \<^verbatim>\<open>currentProb\<close> in the loop body on its own, for a record with
  \<^verbatim>\<open>censored = c\<close> when \<^verbatim>\<open>n\<close> records are left.
\<close>

definition kmStep :: "int \<Rightarrow> real \<Rightarrow> bool \<Rightarrow> real" where
  "kmStep n currentProb c =
     (if \<not> c then currentProb * ((of_int n - 1) / of_int n) else currentProb)"

text \<open>
  The precondition the callers establish by sorting: every record has a time, and the
  times ascend along the array.
\<close>

definition sortedByTime :: "'a event_scheme list \<Rightarrow> bool" where
  "sortedByTime data =
     sorted_wrt (\<lambda>a b. case (recordTime a, recordTime b) of
                          (Some s, Some t) \<Rightarrow> s \<le> t
                        | _ \<Rightarrow> False) data"

section \<open>Random source\<close>

text \<open>
  \<^verbatim>\<open>Math.random()\<close> reads an ambient generator. The model takes the infinite
  sequence of its results (\<open>draws\<close>) and the number of draws made so far (\<open>pos\<close>);
  every call reads \<open>draws pos\<close> and moves on to \<open>Suc pos\<close>. Local variables
  that share their name with a record field carry a prime.
\<close>

type_synonym draws = "nat \<Rightarrow> real"

text \<open>A random source given by its first results \<open>us\<close>; every later draw returns \<open>u\<close>.\<close>

definition drawsFrom :: "real list \<Rightarrow> real \<Rightarrow> draws" where
  "drawsFrom us u = (\<lambda>i. if i < length us then us ! i else u)"

section \<open>Poisson sampler (PoissonRegression.js)\<close>

text \<open>
  \<^verbatim>\<open>k++\<close> on a counter that holds an integer: exact below \<open>2\<^sup>5\<^sup>3\<close>, where \<open>k + 1\<close>
  rounds back to \<open>k\<close>.
\<close>

definition jsIncr :: "int \<Rightarrow> int" where
  "jsIncr k = (if k < 2 ^ 53 then k + 1 else k)"

text \<open>
  \<^verbatim>\<open>do { k++; p *= Math.random(); } while (p > L);\<close>
  The loop may run forever, so it is a partial function: \<open>None\<close> is "does not return".
  On exit the result is the final \<^verbatim>\<open>k\<close> and the position of the random source.
\<close>

partial_function (option) poissonLoop ::
  "jsnum \<Rightarrow> draws \<Rightarrow> int \<Rightarrow> jsnum \<Rightarrow> nat \<Rightarrow> (int \<times> nat) option" where
  "poissonLoop L draws k p pos =
     (let k' = jsIncr k; p' = jsMul p (Num (draws pos))
      in if jsGreater p' L then poissonLoop L draws k' p' (Suc pos) else Some (k', Suc pos))"

text \<open>\<^verbatim>\<open>function poissonSample(lambda)\<close>: returns \<^verbatim>\<open>k - 1\<close>.\<close>

definition poissonSample :: "real \<Rightarrow> draws \<Rightarrow> nat \<Rightarrow> (int \<times> nat) option" where
  "poissonSample lambda draws pos =
     (let L = mathExp (jsNeg (Num lambda))
      in case poissonLoop L draws 0 (Num 1) pos of
           None \<Rightarrow> None
         | Some (k, pos') \<Rightarrow> Some (k - 1, pos'))"

text \<open>
  The value of \<^verbatim>\<open>p\<close> after \<open>n\<close> more passes through the loop body, from the value
  \<open>p\<close> and the position \<open>pos\<close> of the random source.
\<close>

fun runningProduct :: "jsnum \<Rightarrow> draws \<Rightarrow> nat \<Rightarrow> nat \<Rightarrow> jsnum" where
  "runningProduct p draws pos 0 = p"
| "runningProduct p draws pos (Suc n) =
     jsMul (runningProduct p draws pos n) (Num (draws (pos + n)))"

section \<open>Hospital-infections generators\<close>

record infectionSample =
  bedCount :: int
  staffRatio :: real
  infections :: int

text \<open>
  The callback of \<^verbatim>\<open>medicalExamples.hospitalInfections.data\<close> in PoissonRegression.js:
  one sample, made from two draws and the draws of \<^verbatim>\<open>poissonSample\<close>.
\<close>

definition hospitalInfectionsSample ::
  "draws \<Rightarrow> nat \<Rightarrow> (infectionSample \<times> nat) option" where
  "hospitalInfectionsSample draws pos =
     (let bedCount' = \<lfloor>10 + draws pos * 90\<rfloor>;
          staffRatio' = 2 / 10 + draws (pos + 1) * (5 / 10);
          lambda = (of_int bedCount' / 20) * (1 - staffRatio')
      in case poissonSample lambda draws (pos + 2) of
           None \<Rightarrow> None
         | Some (infections', pos') \<Rightarrow>
             Some (\<lparr>bedCount = bedCount', staffRatio = staffRatio',
                     infections = infections'\<rparr>, pos'))"

text \<open>
  The callback of \<^verbatim>\<open>medicalExamples.poisson.hospitalInfections.data\<close> in Home.js, the
  table introduced there as "the example data from each regression component":
  \<^verbatim>\<open>const infections = Math.floor(Math.random() * lambda * 10);\<close>
\<close>

definition homeHospitalInfectionsSample :: "draws \<Rightarrow> nat \<Rightarrow> infectionSample \<times> nat" where
  "homeHospitalInfectionsSample draws pos =
     (let bedCount' = \<lfloor>10 + draws pos * 90\<rfloor>;
          staffRatio' = 2 / 10 + draws (pos + 1) * (5 / 10);
          lambda = (of_int bedCount' / 20) * (1 - staffRatio');
          infections' = \<lfloor>draws (pos + 2) * lambda * 10\<rfloor>
      in (\<lparr>bedCount = bedCount', staffRatio = staffRatio', infections = infections'\<rparr>,
          pos + 3))"

section \<open>Cancer-survival generator (CoxRegression.js, Home.js)\<close>

text \<open>
  The generated objects \<^verbatim>\<open>{age, stage, survivalTime, censored}\<close> are the events of
  the estimator with two more fields.
\<close>

record cancerPatient = event +
  age :: real
  stage :: int

text \<open>The callback of \<^verbatim>\<open>medicalExamples.cancerSurvival.data\<close>: four draws per sample.\<close>

definition cancerSurvivalSample :: "draws \<Rightarrow> nat \<Rightarrow> cancerPatient \<times> nat" where
  "cancerSurvivalSample draws pos =
     (let age' = 40 + draws pos * 40;
          stage' = \<lfloor>draws (pos + 1) * 4\<rfloor> + 1;
          baseTime = 60 - (age' / 10) - (of_int stage' * 6);
          survivalTime' = max 1 (baseTime + draws (pos + 2) * 20);
          censored' = (draws (pos + 3) > 3 / 10)
      in (\<lparr>survivalTime = Some survivalTime', eventTime = None, censored = censored',
            age = age', stage = stage'\<rparr>, pos + 4))"

text \<open>\<^verbatim>\<open>Array.from({ length: n }, gen)\<close>: the callback runs \<open>n\<close> times, in order.\<close>

fun arrayFrom ::
  "nat \<Rightarrow> (draws \<Rightarrow> nat \<Rightarrow> 'a \<times> nat) \<Rightarrow> draws \<Rightarrow> nat \<Rightarrow> 'a list \<times> nat" where
  "arrayFrom 0 gen draws pos = ([], pos)"
| "arrayFrom (Suc n) gen draws pos =
     (let (v, pos') = gen draws pos;
          (vs, pos'') = arrayFrom n gen draws pos'
      in (v # vs, pos''))"

text \<open>
  The comparator \<^verbatim>\<open>(a, b) => a.survivalTime - b.survivalTime\<close>, read as "a may stay
  before b": the difference is not positive. A difference with an absent field is NaN,
  which \<^verbatim>\<open>sort\<close> treats as 0.
\<close>

definition bySurvivalTime :: "'a event_scheme \<Rightarrow> 'a event_scheme \<Rightarrow> bool" where
  "bySurvivalTime a b =
     (case (survivalTime a, survivalTime b) of
        (Some s, Some t) \<Rightarrow> s - t \<le> 0
      | _ \<Rightarrow> True)"

text \<open>
  \<^verbatim>\<open>Array.prototype.sort(cmp)\<close> is a stable sort; it is modelled by insertion sort,
  which is stable.
\<close>

fun insertBy :: "('a \<Rightarrow> 'a \<Rightarrow> bool) \<Rightarrow> 'a \<Rightarrow> 'a list \<Rightarrow> 'a list" where
  "insertBy le v [] = [v]"
| "insertBy le v (w # ws) = (if le v w then v # w # ws else w # insertBy le v ws)"

fun sortBy :: "('a \<Rightarrow> 'a \<Rightarrow> bool) \<Rightarrow> 'a list \<Rightarrow> 'a list" where
  "sortBy le [] = []"
| "sortBy le (v # vs) = insertBy le v (sortBy le vs)"

text \<open>\<^verbatim>\<open>medicalExamples.cancerSurvival.data\<close>: 100 samples, then sorted.\<close>

definition cancerSurvivalData :: "draws \<Rightarrow> nat \<Rightarrow> cancerPatient list \<times> nat" where
  "cancerSurvivalData draws pos =
     (let (samples, pos') = arrayFrom 100 cancerSurvivalSample draws pos
      in (sortBy bySurvivalTime samples, pos'))"

section \<open>Linear estimator (LinearRegression.js, MultipleRegression.js)\<close>

text \<open>
  The two functions of the library d3-array that the estimator calls (the library is not
  part of the repository). \<^verbatim>\<open>d3.mean(values)\<close> on an array of numbers adds them up
  from 0 in order and divides by their count; it is \<^verbatim>\<open>undefined\<close> on the empty array.
  \<^verbatim>\<open>d3.sum(values)\<close> starts from 0 and adds, in order, every entry that is truthy as a
  number, so it skips NaN (and 0).
\<close>

definition d3_mean :: "real list \<Rightarrow> jsnum" where
  "d3_mean values =
     (if values = [] then NaN
      else jsDiv (foldl (\<lambda>s v. jsAdd s (Num v)) (Num 0) values)
                 (Num (of_nat (length values))))"

definition d3_sum :: "jsnum list \<Rightarrow> jsnum" where
  "d3_sum values = foldl (\<lambda>s v. if v = NaN \<or> v = Num 0 then s else jsAdd s v) (Num 0) values"

text \<open>\<^verbatim>\<open>yValues[i]\<close>: \<^verbatim>\<open>undefined\<close> out of range.\<close>

definition jsIndex :: "real list \<Rightarrow> nat \<Rightarrow> jsnum" where
  "jsIndex values i = (if i < length values then Num (values ! i) else NaN)"

record fit =
  slope :: jsnum
  intercept :: jsnum

text \<open>
  \<^verbatim>\<open>const ssxx = d3.sum(xValues.map(x => Math.pow(x - xMean, 2)));\<close> in both
  components.
\<close>

definition ssxxOf :: "real list \<Rightarrow> jsnum \<Rightarrow> jsnum" where
  "ssxxOf xValues xMean = d3_sum (map (\<lambda>x. jsSquare (jsSub (Num x) xMean)) xValues)"

text \<open>
  \<^verbatim>\<open>const ssxy = d3.sum(data.map(d => (d.x - xMean) * (d.y - yMean)));\<close> in
  \<^verbatim>\<open>LinearRegression\<close>. \<^verbatim>\<open>data\<close> is the array of points \<^verbatim>\<open>{x, y}\<close>, here pairs:
  \<^verbatim>\<open>d.x\<close> is \<open>fst d\<close> and \<^verbatim>\<open>d.y\<close> is \<open>snd d\<close>.
\<close>

definition ssxyOfData :: "(real \<times> real) list \<Rightarrow> jsnum \<Rightarrow> jsnum \<Rightarrow> jsnum" where
  "ssxyOfData data xMean yMean =
     d3_sum (map (\<lambda>d. jsMul (jsSub (Num (fst d)) xMean) (jsSub (Num (snd d)) yMean)) data)"

text \<open>
  \<^verbatim>\<open>const ssxy = d3.sum(xValues.map((x, i) => (x - xMean) * (yValues[i] - yMean)));\<close>
  in \<^verbatim>\<open>MultipleRegression\<close>.
\<close>

definition ssxyOfColumns :: "real list \<Rightarrow> real list \<Rightarrow> jsnum \<Rightarrow> jsnum \<Rightarrow> jsnum" where
  "ssxyOfColumns xValues yValues xMean yMean =
     d3_sum (map (\<lambda>(x, i). jsMul (jsSub (Num x) xMean) (jsSub (jsIndex yValues i) yMean))
                 (zip xValues [0..<length xValues]))"

text \<open>The regression line of \<^verbatim>\<open>LinearRegression\<close>.\<close>

definition linearRegressionFit :: "(real \<times> real) list \<Rightarrow> fit" where
  "linearRegressionFit data =
     (let xValues = map fst data;
          yValues = map snd data;
          xMean = d3_mean xValues;
          yMean = d3_mean yValues;
          ssxx = ssxxOf xValues xMean;
          ssxy = ssxyOfData data xMean yMean;
          slope' = jsDiv ssxy ssxx;
          intercept' = jsSub yMean (jsMul slope' xMean)
      in \<lparr>slope = slope', intercept = intercept'\<rparr>)"

text \<open>
  The regression line of \<^verbatim>\<open>MultipleRegression\<close>, on the selected column
  \<^verbatim>\<open>xValues\<close> and the outcome column \<^verbatim>\<open>yValues\<close>.
\<close>

definition multipleRegressionFit :: "real list \<Rightarrow> real list \<Rightarrow> fit" where
  "multipleRegressionFit xValues yValues =
     (let xMean = d3_mean xValues;
          yMean = d3_mean yValues;
          ssxx = ssxxOf xValues xMean;
          ssxy = ssxyOfColumns xValues yValues xMean yMean;
          slope' = jsDiv ssxy ssxx;
          intercept' = jsSub yMean (jsMul slope' xMean)
      in \<lparr>slope = slope', intercept = intercept'\<rparr>)"









section \<open>Rounding to a double\<close>

lemma pow2_powr: "pow2 k = 2 powr (of_int k)"
  by (simp add: pow2_def powr_int)

lemma pow2_pos [simp]: "0 < pow2 k"
  by (simp add: pow2_powr)

lemma pow2_nonneg [simp]: "0 \<le> pow2 k"
  by (simp add: pow2_powr)

lemma pow2_not_le_0 [simp]: "\<not> pow2 k \<le> 0"
  by (simp add: not_le)

lemma pow2_add: "pow2 (a + b) = pow2 a * pow2 b"
  by (simp add: pow2_powr powr_add)

lemma pow2_split: "pow2 a = pow2 b * pow2 (a - b)"
  by (simp add: pow2_add [symmetric])

lemma pow2_diff: "pow2 (a - b) = pow2 a / pow2 b"
  by (simp add: pow2_powr powr_diff)

lemma pow2_le_iff [simp]: "pow2 a \<le> pow2 b \<longleftrightarrow> a \<le> b"
  by (simp add: pow2_powr)

lemma pow2_less_iff [simp]: "pow2 a < pow2 b \<longleftrightarrow> a < b"
  by (simp add: pow2_powr)

lemma pow2_0 [simp]: "pow2 0 = 1"
  by (simp add: pow2_def)

lemma pow2_nat: "0 \<le> k \<Longrightarrow> pow2 k = of_int (2 ^ nat k)"
  by (simp add: pow2_def)

lemma pow2_1 [simp]: "pow2 1 = 2"
  by (simp add: pow2_def)

lemma pow2_Suc: "pow2 (k + 1) = 2 * pow2 k"
  by (simp add: pow2_add)

lemma floor_log2_le: "0 < y \<Longrightarrow> y < pow2 (k + 1) \<Longrightarrow> \<lfloor>log 2 y\<rfloor> \<le> k"
  by (simp add: floor_le_iff pow2_powr log_less_iff)

lemma floor_log2_ge: "0 < y \<Longrightarrow> pow2 k \<le> y \<Longrightarrow> k \<le> \<lfloor>log 2 y\<rfloor>"
  by (simp add: le_floor_iff pow2_powr le_log_iff)

lemma floor_log2_eq: "pow2 k \<le> y \<Longrightarrow> y < pow2 (k + 1) \<Longrightarrow> \<lfloor>log 2 y\<rfloor> = k"
proof -
  assume a: "pow2 k \<le> y" "y < pow2 (k + 1)"
  have "0 < pow2 k" by simp
  with a have "0 < y" by linarith
  with a floor_log2_le floor_log2_ge show ?thesis by (simp add: antisym)
qed

lemma pow2_floor_log2: "0 < y \<Longrightarrow> pow2 \<lfloor>log 2 y\<rfloor> \<le> y \<and> y < pow2 (\<lfloor>log 2 y\<rfloor> + 1)"
  using floor_log_eq_powr_iff [of y 2 "\<lfloor>log 2 y\<rfloor>"] by (simp add: pow2_powr)

lemma roundEven_int [simp]: "roundEven (of_int n) = n"
  by (simp add: roundEven_def)

lemma roundEven_0 [simp]: "roundEven 0 = 0"
  using roundEven_int [of 0] by simp

lemma roundEven_le: "q \<le> of_int N \<Longrightarrow> roundEven q \<le> N"
proof -
  assume q: "q \<le> of_int N"
  show ?thesis
  proof (cases "q = of_int N")
    case True
    then show ?thesis by simp
  next
    case False
    with q have "q < of_int N" by simp
    then have "\<lfloor>q\<rfloor> < N" by (simp add: floor_less_iff)
    then show ?thesis by (simp add: roundEven_def Let_def)
  qed
qed

lemma roundEven_ge: "of_int N \<le> q \<Longrightarrow> N \<le> roundEven q"
proof -
  assume "of_int N \<le> q"
  then have "N \<le> \<lfloor>q\<rfloor>" by (simp add: le_floor_iff)
  then show ?thesis by (simp add: roundEven_def Let_def)
qed

lemma roundEven_below_half: "of_int n \<le> q \<Longrightarrow> q < of_int n + 1 / 2 \<Longrightarrow> roundEven q = n"
proof -
  assume a: "of_int n \<le> q" "q < of_int n + 1 / 2"
  then have "\<lfloor>q\<rfloor> = n" by (intro floor_unique) simp_all
  with a show ?thesis by (simp add: roundEven_def Let_def)
qed

lemma roundEven_above_half: "of_int n + 1 / 2 < q \<Longrightarrow> q \<le> of_int n + 1 \<Longrightarrow> roundEven q = n + 1"
proof -
  assume a: "of_int n + 1 / 2 < q" "q \<le> of_int n + 1"
  show ?thesis
  proof (cases "q = of_int n + 1")
    case True
    then have "q = of_int (n + 1)" by simp
    then show ?thesis by (simp only: roundEven_int)
  next
    case False
    with a have "\<lfloor>q\<rfloor> = n" by (intro floor_unique) simp_all
    with a show ?thesis by (simp add: roundEven_def Let_def)
  qed
qed

lemma roundEven_tie: "roundEven (of_int n + 1 / 2) = (if even n then n else n + 1)"
proof -
  have "\<lfloor>of_int n + 1 / 2 :: real\<rfloor> = n" by (intro floor_unique) simp_all
  then show ?thesis by (simp add: roundEven_def Let_def)
qed

lemma expo_ge [simp]: "- 1022 \<le> expo x"
  by (simp add: expo_def)

lemma ulp_pos [simp]: "0 < ulp x"
  by (simp add: ulp_def)

lemma expo_le: "x \<noteq> 0 \<Longrightarrow> \<bar>x\<bar> < pow2 (k + 1) \<Longrightarrow> - 1022 \<le> k \<Longrightarrow> expo x \<le> k"
  by (simp add: expo_def floor_log2_le)

lemma expo_normal: "pow2 k \<le> \<bar>x\<bar> \<Longrightarrow> \<bar>x\<bar> < pow2 (k + 1) \<Longrightarrow> - 1022 \<le> k \<Longrightarrow> expo x = k"
  by (simp add: expo_def floor_log2_eq)

lemma expo_subnormal: "x \<noteq> 0 \<Longrightarrow> \<bar>x\<bar> < pow2 (- 1022) \<Longrightarrow> expo x = - 1022"
proof -
  assume a: "x \<noteq> 0" "\<bar>x\<bar> < pow2 (- 1022)"
  then have "\<lfloor>log 2 \<bar>x\<bar>\<rfloor> \<le> - 1023" by (intro floor_log2_le) simp_all
  then show ?thesis by (simp add: expo_def)
qed

text \<open>A multiple of a power of two that is fine enough for the exponent of \<open>x\<close> is a multiple of \<open>ulp x\<close>.\<close>

lemma multiple_of_ulp:
  assumes "expo x - 52 \<le> j"
  shows "of_int M * pow2 j = of_int (M * 2 ^ nat (j - (expo x - 52))) * ulp x"
proof -
  have "pow2 j = pow2 (j - (expo x - 52)) * pow2 (expo x - 52)"
    by (simp add: pow2_add [symmetric])
  also have "pow2 (j - (expo x - 52)) = of_int (2 ^ nat (j - (expo x - 52)))"
    using assms by (intro pow2_nat) simp
  finally show ?thesis by (simp add: ulp_def)
qed

lemma fl64_0 [simp]: "fl64 0 = Num 0"
  by (simp add: fl64_def)

lemma fl64_multiple:
  assumes x: "x = of_int K * ulp x" and fin: "\<bar>x\<bar> < pow2 1024"
  shows "fl64 x = Num x"
proof (cases "x = 0")
  case True
  then show ?thesis by simp
next
  case False
  define u where "u = ulp x"
  have u: "0 < u" by (simp add: u_def)
  from x have xu: "x = of_int K * u" by (simp add: u_def)
  from u have "of_int K * u / u = of_int K" by simp
  with xu have "x / u = of_int K" by simp
  then have "of_int (roundEven (x / u)) * u = x" using xu by simp
  with False fin show ?thesis by (simp add: fl64_def Let_def u_def)
qed

lemma fl64_exact:
  assumes x: "x = of_int m * pow2 e" and m: "\<bar>m\<bar> < 2 ^ 53" and e: "- 1074 \<le> e"
    and fin: "\<bar>x\<bar> < pow2 1024"
  shows "fl64 x = Num x"
proof (cases "x = 0")
  case True
  then show ?thesis by simp
next
  case False
  have p53: "of_int (2 ^ 53) = pow2 53" by (simp add: pow2_def)
  have "\<bar>x\<bar> = of_int \<bar>m\<bar> * pow2 e" by (simp add: x abs_mult)
  also have "\<dots> < of_int (2 ^ 53) * pow2 e" using m by (intro mult_strict_right_mono) simp_all
  also have "\<dots> = pow2 (e + 52 + 1)" unfolding p53 by (simp add: pow2_add [symmetric])
  finally have lt: "\<bar>x\<bar> < pow2 (e + 52 + 1)" .
  have "expo x \<le> max (e + 52) (- 1022)"
  proof (rule expo_le [OF False])
    have "pow2 (e + 52 + 1) \<le> pow2 (max (e + 52) (- 1022) + 1)" by simp
    with lt show "\<bar>x\<bar> < pow2 (max (e + 52) (- 1022) + 1)" by (rule less_le_trans)
  qed simp
  with e have "expo x - 52 \<le> e" by simp
  from multiple_of_ulp [OF this, of m] x have "x = of_int (m * 2 ^ nat (e - (expo x - 52))) * ulp x"
    by simp
  then show ?thesis using fin by (rule fl64_multiple)
qed

lemma roundEven_small: "\<bar>q\<bar> \<le> 1 / 2 \<Longrightarrow> roundEven q = 0"
proof -
  assume q: "\<bar>q\<bar> \<le> 1 / 2"
  show ?thesis
  proof (cases "0 \<le> q")
    case True
    show ?thesis
    proof (cases "q = 1 / 2")
      case True
      then have "q = of_int 0 + 1 / 2" by simp
      then show ?thesis by (simp only: roundEven_tie) simp
    next
      case False
      with q have "q < 1 / 2" by linarith
      with True have "of_int 0 \<le> q" "q < of_int 0 + 1 / 2" by simp_all
      then show ?thesis by (rule roundEven_below_half)
    qed
  next
    case neg: False
    show ?thesis
    proof (cases "q = - 1 / 2")
      case True
      then have "q = of_int (- 1) + 1 / 2" by simp
      then show ?thesis by (simp only: roundEven_tie) simp
    next
      case False
      with q have "- 1 / 2 < q" by linarith
      with neg have "of_int (- 1) + 1 / 2 < q" "q \<le> of_int (- 1) + 1" by simp_all
      then have "roundEven q = - 1 + 1" by (rule roundEven_above_half)
      then show ?thesis by simp
    qed
  qed
qed

lemma fl64_underflow:
  assumes "\<bar>x\<bar> \<le> pow2 (- 1075)"
  shows "fl64 x = Num 0"
proof (cases "x = 0")
  case True
  then show ?thesis by simp
next
  case False
  from assms have "\<bar>x\<bar> < pow2 (- 1022)" by (rule le_less_trans) simp
  with False have e: "expo x = - 1022" by (rule expo_subnormal)
  then have u: "ulp x = pow2 (- 1074)" by (simp add: ulp_def)
  define v where "v = pow2 (- 1074)"
  have v: "0 < v" by (simp add: v_def)
  have half: "pow2 (- 1075) = v / 2"
    using pow2_Suc [of "- 1075"] by (simp add: v_def)
  from assms half have "\<bar>x\<bar> \<le> v / 2" by simp
  with v have "\<bar>x / v\<bar> \<le> 1 / 2" by (simp add: field_simps)
  then have "roundEven (x / v) = 0" by (rule roundEven_small)
  with False show ?thesis by (simp add: fl64_def u v_def)
qed

lemma abs_less_pow2_expo: "x \<noteq> 0 \<Longrightarrow> \<bar>x\<bar> < pow2 (expo x + 1)"
proof -
  assume "x \<noteq> 0"
  then have "\<bar>x\<bar> < pow2 (\<lfloor>log 2 \<bar>x\<bar>\<rfloor> + 1)" using pow2_floor_log2 [of "\<bar>x\<bar>"] by simp
  also have "\<dots> \<le> pow2 (expo x + 1)" by (simp add: expo_def)
  finally show ?thesis .
qed

lemma fl64_Num_form:
  assumes "fl64 x = Num r"
  shows "r = of_int (roundEven (x / ulp x)) * ulp x \<and> \<bar>r\<bar> < pow2 1024"
proof (cases "x = 0")
  case True
  with assms show ?thesis by simp
next
  case False
  with assms show ?thesis
    by (auto simp: fl64_def Let_def not_le split: if_splits)
qed

lemma fl64_le_multiple:
  assumes x: "0 < x" and le: "x \<le> of_int M * pow2 j" and j: "expo x - 52 \<le> j"
    and fin: "of_int M * pow2 j < pow2 1024"
  shows "\<exists>r. fl64 x = Num r \<and> 0 \<le> r \<and> r \<le> of_int M * pow2 j"
proof -
  define u where "u = ulp x"
  have u: "0 < u" by (simp add: u_def)
  define N where "N = M * 2 ^ nat (j - (expo x - 52))"
  from multiple_of_ulp [OF j, of M] have d: "of_int M * pow2 j = of_int N * u"
    by (simp add: N_def u_def)
  define K where "K = roundEven (x / u)"
  from le d u have "x / u \<le> of_int N" by (simp add: field_simps)
  then have KN: "K \<le> N" unfolding K_def by (rule roundEven_le)
  from x u have "of_int 0 \<le> x / u" by simp
  then have K0: "0 \<le> K" unfolding K_def by (rule roundEven_ge)
  define r where "r = of_int K * u"
  from K0 u have r0: "0 \<le> r" by (simp add: r_def)
  from KN u have "r \<le> of_int N * u" by (simp add: r_def)
  with d have rd: "r \<le> of_int M * pow2 j" by simp
  with fin r0 have "\<not> pow2 1024 \<le> \<bar>r\<bar>" by simp
  with x have "fl64 x = Num r" by (simp add: fl64_def Let_def r_def K_def u_def)
  with r0 rd show ?thesis by blast
qed

lemma fl64_le_pow2:
  assumes "0 \<le> x" and "x \<le> pow2 k" and "- 1074 \<le> k" and "k \<le> 1023"
  shows "\<exists>r. fl64 x = Num r \<and> 0 \<le> r \<and> r \<le> pow2 k"
proof (cases "x = 0")
  case True
  then show ?thesis by simp
next
  case False
  with assms(1) have x: "0 < x" by simp
  then have ax: "\<bar>x\<bar> = x" by simp
  have "k < max k (- 1022) + 1" by simp
  then have "pow2 k < pow2 (max k (- 1022) + 1)" by (simp only: pow2_less_iff)
  with assms(2) have "\<bar>x\<bar> < pow2 (max k (- 1022) + 1)" unfolding ax by (rule le_less_trans)
  with False have "expo x \<le> max k (- 1022)" by (rule expo_le) simp
  with assms(3) have j: "expo x - 52 \<le> k" by simp
  from assms(4) have "k < 1024" by simp
  then have fin: "of_int 1 * pow2 k < pow2 1024"
    by (simp only: of_int_1 mult_1 pow2_less_iff)
  have le: "x \<le> of_int 1 * pow2 k" using assms(2) by (simp only: of_int_1 mult_1)
  from fl64_le_multiple [OF x le j fin] show ?thesis by (simp only: of_int_1 mult_1)
qed

lemma fl64_ge_normal:
  assumes "pow2 (- 1022) \<le> x" and "fl64 x = Num r"
  shows "pow2 (- 1022) \<le> r"
proof -
  have x: "0 < x" using assms(1) by (rule less_le_trans [OF pow2_pos])
  define E where "E = \<lfloor>log 2 x\<rfloor>"
  from x assms(1) have E: "- 1022 \<le> E" unfolding E_def by (intro floor_log2_ge)
  then have ex: "expo x = E" using x by (simp add: expo_def E_def)
  from pow2_floor_log2 [OF x] have low: "pow2 E \<le> x" by (simp add: E_def)
  define u where "u = pow2 (E - 52)"
  have u: "0 < u" by (simp add: u_def)
  have "pow2 E = pow2 52 * u" by (simp add: u_def pow2_add [symmetric])
  also have "pow2 52 = of_int (2 ^ 52)" by (simp add: pow2_def)
  finally have pe: "pow2 E = of_int (2 ^ 52) * u" .
  with low u have "of_int (2 ^ 52) \<le> x / u" by (simp add: field_simps)
  then have "2 ^ 52 \<le> roundEven (x / u)" by (rule roundEven_ge)
  then have "of_int (2 ^ 52) * u \<le> of_int (roundEven (x / u)) * u"
    using u by (intro mult_right_mono) simp_all
  moreover have "ulp x = u" by (simp add: ulp_def ex u_def)
  with fl64_Num_form [OF assms(2)] have "r = of_int (roundEven (x / u)) * u"
    by simp
  ultimately have "pow2 E \<le> r" using pe by simp
  moreover from E have "pow2 (- 1022) \<le> pow2 E" by simp
  ultimately show ?thesis by linarith
qed

lemma fl64_isDouble:
  assumes "fl64 x = Num r"
  shows "isDouble r"
proof (cases "x = 0 \<or> r = 0")
  case True
  with assms show ?thesis by (auto simp: isDouble_def)
next
  case False
  then have x: "x \<noteq> 0" and r: "r \<noteq> 0" by simp_all
  define E where "E = expo x"
  define u where "u = pow2 (E - 52)"
  define K where "K = roundEven (x / u)"
  have ulp: "ulp x = u" by (simp add: ulp_def u_def E_def)
  note form = fl64_Num_form [OF assms, unfolded ulp, folded K_def]
  from form have rK: "r = of_int K * u" by (rule conjunct1)
  from form have fin: "\<bar>r\<bar> < pow2 1024" by (rule conjunct2)
  have u: "0 < u" by (simp add: u_def)
  have E: "- 1022 \<le> E" by (simp add: E_def)
  have "pow2 (E + 1) = pow2 53 * pow2 (E + 1 - 53)" by (rule pow2_split)
  then have "pow2 (E + 1) = pow2 53 * pow2 (E - 52)" by simp
  also have "pow2 53 = of_int (2 ^ 53)" by (simp add: pow2_def)
  finally have p53: "pow2 (E + 1) = of_int (2 ^ 53) * u" by (simp add: u_def)
  from abs_less_pow2_expo [OF x] have ax: "\<bar>x\<bar> < of_int (2 ^ 53) * u"
    unfolding E_def [symmetric] p53 .
  from ax have "x < of_int (2 ^ 53) * u" by linarith
  with u have "x / u \<le> of_int (2 ^ 53)" by (simp add: field_simps)
  then have K1: "K \<le> 2 ^ 53" unfolding K_def by (rule roundEven_le)
  from ax have "- (of_int (2 ^ 53) * u) < x" by linarith
  with u have "of_int (- (2 ^ 53)) \<le> x / u" by (simp add: field_simps)
  then have K2: "- (2 ^ 53) \<le> K" unfolding K_def by (rule roundEven_ge)
  from K1 K2 have "\<bar>K\<bar> \<le> 2 ^ 53" by linarith
  then have "of_int \<bar>K\<bar> \<le> (of_int (2 ^ 53) :: real)" by (simp only: of_int_le_iff)
  then have "of_int \<bar>K\<bar> * u \<le> of_int (2 ^ 53) * u" using u by (intro mult_right_mono) simp_all
  moreover have "\<bar>r\<bar> = of_int \<bar>K\<bar> * u" using u by (simp add: rK abs_mult)
  ultimately have rle: "\<bar>r\<bar> \<le> pow2 (E + 1)" by (simp add: p53)
  show ?thesis
  proof (cases "\<bar>r\<bar> = pow2 (E + 1)")
    case True
    have e1: "- 1074 \<le> E + 1" using E by simp
    from True consider "r = pow2 (E + 1)" | "r = - pow2 (E + 1)" by (auto simp: abs_if split: if_splits)
    then show ?thesis
    proof cases
      case 1
      then have "r = of_int 1 * pow2 (E + 1)" by simp
      then have "fl64 r = Num r" using _ e1 fin by (rule fl64_exact) simp
      then show ?thesis by (simp add: isDouble_def)
    next
      case 2
      then have "r = of_int (- 1) * pow2 (E + 1)" by simp
      then have "fl64 r = Num r" using _ e1 fin by (rule fl64_exact) simp
      then show ?thesis by (simp add: isDouble_def)
    qed
  next
    case False
    with rle have "\<bar>r\<bar> < pow2 (E + 1)" by simp
    with r have "expo r \<le> E" using E by (rule expo_le)
    then have "expo r - 52 \<le> E - 52" by simp
    from multiple_of_ulp [OF this, of K] rK
    have "r = of_int (K * 2 ^ nat (E - 52 - (expo r - 52))) * ulp r" by (simp add: u_def)
    then show ?thesis unfolding isDouble_def using fin by (rule fl64_multiple)
  qed
qed

lemma isDouble_form: "isDouble p \<Longrightarrow> p = of_int (roundEven (p / ulp p)) * ulp p \<and> \<bar>p\<bar> < pow2 1024"
  unfolding isDouble_def by (rule fl64_Num_form)

text \<open>
  One step of the running product: a double \<open>p\<close> above the smallest normal double, times
  a factor of at most \<open>1 - 2\<^sup>-\<^sup>5\<^sup>3\<close>, rounds to a double that is smaller by a fixed
  fraction.
\<close>

lemma fl64_mul_decrease:
  assumes p: "isDouble p" and big: "pow2 (- 1022) < p"
    and u0: "0 \<le> u" and u1: "u \<le> 1 - pow2 (- 53)"
  shows "\<exists>r. fl64 (p * u) = Num r \<and> 0 \<le> r \<and> r \<le> p * (1 - pow2 (- 54))"
proof -
  have p0: "0 < p" using big by (rule less_trans [OF pow2_pos])
  define E where "E = \<lfloor>log 2 p\<rfloor>"
  from p0 big have E: "- 1022 \<le> E" unfolding E_def by (intro floor_log2_ge) simp_all
  then have ex: "expo p = E" using p0 by (simp add: expo_def E_def)
  from pow2_floor_log2 [OF p0] have low: "pow2 E \<le> p" and up: "p < pow2 (E + 1)"
    by (simp_all add: E_def)
  define w where "w = pow2 (E - 52)"
  have w: "0 < w" by (simp add: w_def)
  have ulp: "ulp p = w" by (simp add: ulp_def ex w_def)
  define K where "K = roundEven (p / w)"
  note form = isDouble_form [OF p, unfolded ulp, folded K_def]
  from form have pK: "p = of_int K * w" by (rule conjunct1)
  from form have "\<bar>p\<bar> < pow2 1024" by (rule conjunct2)
  with p0 have pfin: "p < pow2 1024" by simp
  have "pow2 (E) = pow2 52 * pow2 (E - 52)" by (rule pow2_split)
  then have "pow2 E = pow2 52 * pow2 (E - 52)" by simp
  also have "pow2 52 = of_int (2 ^ 52)" by (simp add: pow2_def)
  finally have pE: "pow2 E = of_int (2 ^ 52) * w" by (simp add: w_def)
  from low pE pK have "of_int (2 ^ 52) * w \<le> of_int K * w" by simp
  with w have "(of_int (2 ^ 52) :: real) \<le> of_int K" by (simp only: mult_le_cancel_right_pos)
  then have K52: "2 ^ 52 \<le> K" by (simp only: of_int_le_iff)
  have "pow2 (E - 52) = pow2 1 * pow2 (E - 52 - 1)" by (rule pow2_split)
  then have "pow2 (E - 52) = pow2 1 * pow2 (E - 53)" by simp
  then have wh: "w = 2 * pow2 (E - 53)" by (simp add: w_def)
  define h where "h = pow2 (E - 53)"
  have h: "0 < h" by (simp add: h_def)
  from wh have wh': "w = 2 * h" by (simp add: h_def)
  define B where "B = p - h"
  text \<open>The bound \<open>B\<close> is below \<open>p (1 - 2\<^sup>-\<^sup>5\<^sup>4)\<close>.\<close>
  have "pow2 (E + 1) = pow2 54 * pow2 (E + 1 - 54)" by (rule pow2_split)
  then have "pow2 (E + 1) = pow2 54 * pow2 (E - 53)" by simp
  then have p54: "p < pow2 54 * h" using up by (simp add: h_def)
  have one: "pow2 54 * pow2 (- 54) = 1" by (simp only: pow2_add [symmetric]) simp
  from p54 have "p * pow2 (- 54) < (pow2 54 * h) * pow2 (- 54)"
    by (rule mult_strict_right_mono) simp
  also have "\<dots> = h * (pow2 54 * pow2 (- 54))" by (simp only: mult_ac)
  also have "\<dots> = h" by (simp only: one mult_1_right)
  finally have "p * pow2 (- 54) < h" .
  then have Bp: "B \<le> p * (1 - pow2 (- 54))" by (simp add: B_def algebra_simps)
  text \<open>The exact product is at most \<open>p - p 2\<^sup>-\<^sup>5\<^sup>3\<close>.\<close>
  define z where "z = p * u"
  from u1 p0 have "z \<le> p * (1 - pow2 (- 53))" unfolding z_def by (intro mult_left_mono) simp_all
  then have zle: "z \<le> p - p * pow2 (- 53)" by (simp add: algebra_simps)
  have "E - 53 = E + (- 53)" by simp
  then have "pow2 (E - 53) = pow2 E * pow2 (- 53)" by (simp only: pow2_add)
  then have hE: "h = pow2 E * pow2 (- 53)" by (simp add: h_def)
  from low have "pow2 E * pow2 (- 53) \<le> p * pow2 (- 53)" by (intro mult_right_mono) simp_all
  with hE have hp: "h \<le> p * pow2 (- 53)" by simp
  with zle have zB: "z \<le> B" by (simp add: B_def)
  from u0 p0 have z0: "0 \<le> z" by (simp add: z_def)
  have "\<exists>r. fl64 z = Num r \<and> 0 \<le> r \<and> r \<le> B"
  proof (cases "z = 0")
    case True
    have "(- 53 :: int) \<le> 0" by simp
    then have "pow2 (- 53) \<le> pow2 0" by (simp only: pow2_le_iff)
    then have "p * pow2 (- 53) \<le> p * 1" using p0 by (intro mult_left_mono) simp_all
    with hp have "0 \<le> B" by (simp add: B_def)
    with True show ?thesis by simp
  next
    case False
    with z0 have zpos: "0 < z" by simp
    show ?thesis
    proof (cases "K = 2 ^ 52")
      case True
      with pK pE have pp: "p = pow2 E" by simp
      with big have "- 1022 < E" by (simp only: pow2_less_iff)
      then have E1: "- 1022 \<le> E - 1" by simp
      have "pow2 E = pow2 53 * pow2 (E - 53)"
      proof -
        have "pow2 (E) = pow2 53 * pow2 (E - 53)" by (rule pow2_split)
        then show ?thesis by simp
      qed
      also have "pow2 53 = of_int (2 ^ 53)" by (simp add: pow2_def)
      finally have "B = of_int (2 ^ 53 - 1) * pow2 (E - 53)"
        by (simp add: B_def pp h_def algebra_simps)
      then have Bm: "B = of_int (2 ^ 53 - 1) * pow2 (E - 53)" .
      have "B < pow2 E" using h by (simp add: B_def pp)
      with zB have "z < pow2 (E - 1 + 1)" by simp
      with zpos have "\<bar>z\<bar> < pow2 (E - 1 + 1)" by simp
      with False have "expo z \<le> E - 1" using E1 by (rule expo_le)
      then have j: "expo z - 52 \<le> E - 53" by simp
      from zB have le: "z \<le> of_int (2 ^ 53 - 1) * pow2 (E - 53)" by (simp only: Bm)
      from h have "B < p" by (simp add: B_def)
      then have "B < pow2 1024" using pfin by (rule less_trans)
      then have "of_int (2 ^ 53 - 1) * pow2 (E - 53) < pow2 1024"
        by (simp only: Bm [symmetric])
      from fl64_le_multiple [OF zpos le j this] show ?thesis by (simp only: Bm)
    next
      case False
      with K52 have K53: "2 ^ 52 + 1 \<le> K" by simp
      define d where "d = of_int (K - 1) * w"
      have dp: "d = p - w" by (simp add: d_def pK algebra_simps)
      have dB: "d \<le> B" using h by (simp add: dp B_def wh')
      show ?thesis
      proof (cases "z \<le> d")
        case True
        from up zB h have "z < pow2 (E + 1)" by (simp add: B_def)
        with zpos have "\<bar>z\<bar> < pow2 (E + 1)" by simp
        with \<open>z \<noteq> 0\<close> have "expo z \<le> E" using E by (rule expo_le)
        then have j: "expo z - 52 \<le> E - 52" by simp
        from True have le: "z \<le> of_int (K - 1) * pow2 (E - 52)" by (simp add: d_def w_def)
        have "d < pow2 1024" using pfin w by (simp add: dp)
        then have "of_int (K - 1) * pow2 (E - 52) < pow2 1024" by (simp add: d_def w_def)
        from fl64_le_multiple [OF zpos le j this] dB show ?thesis
          by (auto simp: d_def w_def)
      next
        case between: False
        then have dz: "d < z" by simp
        text \<open>Then \<open>z\<close> lies in the binade of \<open>p\<close>, below the midpoint of \<open>d\<close> and \<open>p\<close>.\<close>
        from K53 have "2 ^ 52 \<le> K - 1" by simp
        then have "(of_int (2 ^ 52) :: real) \<le> of_int (K - 1)" by (simp only: of_int_le_iff)
        then have "of_int (2 ^ 52) * w \<le> d" unfolding d_def using w by (intro mult_right_mono) simp_all
        with pE dz have zlow: "pow2 E \<le> z" by simp
        from up zB h have zup: "z < pow2 (E + 1)" by (simp add: B_def)
        from zpos zlow zup have "expo z = E" using E by (intro expo_normal) simp_all
        then have uz: "ulp z = w" by (simp add: ulp_def w_def)
        text \<open>Strictly below the midpoint, because \<open>p > 2\<^sup>E\<close>.\<close>
        have "pow2 E < p"
        proof -
          from K53 have "2 ^ 52 < K" by simp
          then have "(of_int (2 ^ 52) :: real) < of_int K" by (simp only: of_int_less_iff)
          then have "of_int (2 ^ 52) * w < of_int K * w" using w by (simp only: mult_less_cancel_right_pos)
          with pE pK show ?thesis by simp
        qed
        then have "pow2 E * pow2 (- 53) < p * pow2 (- 53)" by (simp only: mult_less_cancel_right_pos pow2_pos)
        with hE zle have zlt: "z < B" unfolding B_def by linarith
        have q1: "of_int (K - 1) \<le> z / w" using dz w by (simp add: d_def field_simps)
        have "B = (of_int (K - 1) + 1 / 2) * w" by (simp add: B_def pK wh' algebra_simps)
        with zlt w have q2: "z / w < of_int (K - 1) + 1 / 2" by (simp add: field_simps)
        from q1 q2 have "roundEven (z / w) = K - 1" by (rule roundEven_below_half)
        moreover have "\<not> pow2 1024 \<le> \<bar>d\<bar>"
        proof -
          from zlow dz pE \<open>of_int (2 ^ 52) * w \<le> d\<close> w have "0 \<le> d" by (simp add: order_trans [of 0 "of_int (2 ^ 52) * w"])
          moreover have "d < pow2 1024" using pfin w by (simp add: dp)
          ultimately show ?thesis by simp
        qed
        ultimately have "fl64 z = Num d" using \<open>z \<noteq> 0\<close> by (simp add: fl64_def uz d_def)
        moreover have "0 \<le> d" using \<open>of_int (2 ^ 52) * w \<le> d\<close> w
          by (simp add: order_trans [of 0 "of_int (2 ^ 52) * w"])
        ultimately show ?thesis using dB by simp
      qed
    qed
  qed
  with Bp show ?thesis unfolding z_def by (meson order_trans)
qed

section \<open>The Kaplan-Meier loop\<close>

text \<open>The accumulated array is a prefix of the result: the loop only appends.\<close>

lemma kmForEach_append:
  "kmForEach tm ds n p acc = acc @ kmForEach tm ds n p []"
proof (induction ds arbitrary: n p acc)
  case Nil
  show ?case by simp
next
  case (Cons d ds)
  show ?case
    by (simp add: Let_def Cons.IH [of _ _ "acc @ _"] Cons.IH [of _ _ "[_]"])
qed

lemma kmForEach_Cons:
  "kmForEach tm (d # ds) n p [] =
     \<lparr>time = tm d, probability = kmStep n p (censored d), censoredPt = censored d\<rparr>
       # kmForEach tm ds (n - 1) (kmStep n p (censored d)) []"
  by (simp add: Let_def kmStep_def kmForEach_append [of _ _ _ _ "[_]"])

lemma length_kmForEach: "length (kmForEach tm ds n p []) = length ds"
  by (induction ds arbitrary: n p) (simp_all add: kmForEach_Cons del: kmForEach.simps(2))

lemma kmForEach_nth:
  "i < length ds \<Longrightarrow>
   time (kmForEach tm ds n p [] ! i) = tm (ds ! i) \<and>
   censoredPt (kmForEach tm ds n p [] ! i) = censored (ds ! i) \<and>
   probability (kmForEach tm ds n p [] ! i) =
     kmStep (n - int i) (if i = 0 then p else probability (kmForEach tm ds n p [] ! (i - 1)))
       (censored (ds ! i))"
proof (induction ds arbitrary: n p i)
  case Nil
  then show ?case by simp
next
  case (Cons d ds)
  show ?case
  proof (cases i)
    case 0
    then show ?thesis by (simp add: kmForEach_Cons del: kmForEach.simps(2))
  next
    case (Suc j)
    with Cons.prems have j: "j < length ds" by simp
    have idx: "n - 1 - int j = n - int i" using Suc by simp
    from Cons.IH [OF j, of "n - 1" "kmStep n p (censored d)"] Suc
    show ?thesis
      unfolding idx
      by (cases j) (simp_all add: kmForEach_Cons del: kmForEach.simps(2))
  qed
qed

lemma kmStep_bounds:
  assumes "1 \<le> n" and "0 \<le> p"
  shows "0 \<le> kmStep n p c \<and> kmStep n p c \<le> p"
proof -
  let ?f = "(real_of_int n - 1) / real_of_int n"
  from assms(1) have f: "0 \<le> ?f" "?f \<le> 1" by simp_all
  from assms(2) f(1) have "0 \<le> p * ?f" by (rule mult_nonneg_nonneg)
  moreover from f(2) assms(2) have "p * ?f \<le> p" by (rule mult_left_le)
  ultimately show ?thesis by (simp add: kmStep_def)
qed

lemma kmStep_pos: "2 \<le> n \<Longrightarrow> 0 < p \<Longrightarrow> 0 < kmStep n p c"
  by (auto simp: kmStep_def)

lemma kmForEach_range:
  "int (length ds) \<le> n \<Longrightarrow> 0 \<le> p \<Longrightarrow> pt \<in> set (kmForEach tm ds n p []) \<Longrightarrow>
   0 \<le> probability pt \<and> probability pt \<le> p"
proof (induction ds arbitrary: n p)
  case Nil
  then show ?case by simp
next
  case (Cons d ds)
  let ?q = "kmStep n p (censored d)"
  from Cons.prems have n: "1 \<le> n" by simp
  from kmStep_bounds [OF n Cons.prems(2)] have q: "0 \<le> ?q" "?q \<le> p" by simp_all
  from Cons.prems(3) consider "probability pt = ?q" | "pt \<in> set (kmForEach tm ds (n - 1) ?q [])"
    by (auto simp: kmForEach_Cons simp del: kmForEach.simps(2))
  then show ?case
  proof cases
    case 1
    with q show ?thesis by simp
  next
    case 2
    from Cons.prems(1) have "int (length ds) \<le> n - 1" by simp
    from Cons.IH [OF this q(1) 2] q show ?thesis by simp
  qed
qed

lemma kmForEach_nonincreasing:
  "int (length ds) \<le> n \<Longrightarrow> 0 \<le> p \<Longrightarrow>
   sorted_wrt (\<lambda>a b. probability b \<le> probability a) (kmForEach tm ds n p [])"
proof (induction ds arbitrary: n p)
  case Nil
  then show ?case by simp
next
  case (Cons d ds)
  let ?q = "kmStep n p (censored d)"
  from Cons.prems have n: "1 \<le> n" by simp
  from kmStep_bounds [OF n Cons.prems(2)] have q: "0 \<le> ?q" by simp
  from Cons.prems(1) have len: "int (length ds) \<le> n - 1" by simp
  have "\<forall>pt \<in> set (kmForEach tm ds (n - 1) ?q []). probability pt \<le> ?q"
    using kmForEach_range [OF len q] by blast
  with Cons.IH [OF len q] show ?case
    by (simp add: kmForEach_Cons del: kmForEach.simps(2))
qed

lemma kmForEach_positive:
  "int (length ds) \<le> n \<Longrightarrow> 0 < p \<Longrightarrow> i < length ds \<Longrightarrow>
   Suc i < length ds \<or> int (length ds) < n \<Longrightarrow>
   0 < probability (kmForEach tm ds n p [] ! i)"
proof (induction ds arbitrary: n p i)
  case Nil
  then show ?case by simp
next
  case (Cons d ds)
  let ?q = "kmStep n p (censored d)"
  from Cons.prems have n: "2 \<le> n" by auto
  from kmStep_pos [OF n Cons.prems(2)] have q: "0 < ?q" .
  show ?case
  proof (cases i)
    case 0
    with q show ?thesis by (simp add: kmForEach_Cons del: kmForEach.simps(2))
  next
    case (Suc j)
    from Cons.prems(1) have len: "int (length ds) \<le> n - 1" by simp
    from Cons.prems(3) Suc have j: "j < length ds" by simp
    from Cons.prems(4) Suc have "Suc j < length ds \<or> int (length ds) < n - 1" by auto
    from Cons.IH [OF len q j this] Suc show ?thesis
      by (simp add: kmForEach_Cons del: kmForEach.simps(2))
  qed
qed

lemma kmForEach_censored_only:
  "map censored ds = map censored ds' \<Longrightarrow>
   map probability (kmForEach tm ds n p []) = map probability (kmForEach tm' ds' n p [])"
proof (induction ds arbitrary: ds' n p)
  case Nil
  then show ?case by simp
next
  case (Cons d ds)
  from Cons.prems obtain d' es where ds': "ds' = d' # es" and c: "censored d' = censored d"
    and rest: "map censored ds = map censored es"
    by (cases ds') auto
  from Cons.IH [OF rest] show ?case
    by (simp add: ds' c kmForEach_Cons del: kmForEach.simps(2))
qed

section \<open>Claims on the Kaplan-Meier estimator\<close>

lemma calculateKaplanMeier_nth:
  assumes "i < length data"
  shows "time (calculateKaplanMeier data ! i) = recordTime (data ! i) \<and>
     censoredPt (calculateKaplanMeier data ! i) = censored (data ! i) \<and>
     probability (calculateKaplanMeier data ! i) =
       (let atRisk = int (length data) - int i;
            previous = (if i = 0 then 1 else probability (calculateKaplanMeier data ! (i - 1)))
        in if censored (data ! i) then previous
           else previous * ((of_int atRisk - 1) / of_int atRisk))"
  using kmForEach_nth [OF assms, of recordTime "int (length data)" 1]
  by (simp add: calculateKaplanMeier_def kmStep_def Let_def)

lemma homeKaplanMeier_nth:
  assumes "i < length data"
  shows "time (homeKaplanMeier data ! i) = survivalTime (data ! i) \<and>
     censoredPt (homeKaplanMeier data ! i) = censored (data ! i) \<and>
     probability (homeKaplanMeier data ! i) =
       (let atRisk = int (length data) - int i;
            previous = (if i = 0 then 1 else probability (homeKaplanMeier data ! (i - 1)))
        in if censored (data ! i) then previous
           else previous * ((of_int atRisk - 1) / of_int atRisk))"
  using kmForEach_nth [OF assms, of survivalTime "int (length data)" 1]
  by (simp add: homeKaplanMeier_def kmStep_def Let_def)

lemma kaplanMeier_three_events:
  "calculateKaplanMeier
     [\<lparr>survivalTime = Some 1, eventTime = None, censored = False\<rparr>,
      \<lparr>survivalTime = Some 2, eventTime = None, censored = False\<rparr>,
      \<lparr>survivalTime = Some 3, eventTime = None, censored = False\<rparr>] =
     [\<lparr>time = Some 1, probability = 2 / 3, censoredPt = False\<rparr>,
      \<lparr>time = Some 2, probability = 1 / 3, censoredPt = False\<rparr>,
      \<lparr>time = Some 3, probability = 0, censoredPt = False\<rparr>]"
  "homeKaplanMeier
     [\<lparr>survivalTime = Some 1, eventTime = None, censored = False\<rparr>,
      \<lparr>survivalTime = Some 2, eventTime = None, censored = False\<rparr>,
      \<lparr>survivalTime = Some 3, eventTime = None, censored = False\<rparr>] =
     [\<lparr>time = Some 1, probability = 2 / 3, censoredPt = False\<rparr>,
      \<lparr>time = Some 2, probability = 1 / 3, censoredPt = False\<rparr>,
      \<lparr>time = Some 3, probability = 0, censoredPt = False\<rparr>]"
  by (simp_all add: calculateKaplanMeier_def homeKaplanMeier_def recordTime_def jsOr_def)

text \<open>
  C1. The estimator processes the records in order, starting from an at-risk count equal
  to the length of the data and probability 1. The point emitted for record \<open>i\<close> carries
  the record's time and censored flag; its probability is the previous one (1 for the
  first record) when the record is censored, and the previous one multiplied by
  \<open>(atRisk - 1) / atRisk\<close> otherwise, where \<open>atRisk\<close> is the length minus \<open>i\<close>: the count
  is decremented after every record, censored or not. The output is as long as the input,
  and empty for the empty input. Three uncensored events at times 1, 2, 3 give the
  probabilities 2/3, 1/3, 0 with all censored fields false. Both copies of the loop
  (CoxRegression.js and Home.js) behave so.
\<close>

theorem kaplanMeier_algorithm:
  "length (calculateKaplanMeier data) = length data \<and>
   length (homeKaplanMeier data) = length data \<and>
   calculateKaplanMeier [] = [] \<and>
   homeKaplanMeier [] = [] \<and>
   (\<forall>i<length data.
      time (calculateKaplanMeier data ! i) = recordTime (data ! i) \<and>
      censoredPt (calculateKaplanMeier data ! i) = censored (data ! i) \<and>
      probability (calculateKaplanMeier data ! i) =
        (let atRisk = int (length data) - int i;
             previous = (if i = 0 then 1
                         else probability (calculateKaplanMeier data ! (i - 1)))
         in if censored (data ! i) then previous
            else previous * ((of_int atRisk - 1) / of_int atRisk))) \<and>
   (\<forall>i<length data.
      time (homeKaplanMeier data ! i) = survivalTime (data ! i) \<and>
      censoredPt (homeKaplanMeier data ! i) = censored (data ! i) \<and>
      probability (homeKaplanMeier data ! i) =
        (let atRisk = int (length data) - int i;
             previous = (if i = 0 then 1 else probability (homeKaplanMeier data ! (i - 1)))
         in if censored (data ! i) then previous
            else previous * ((of_int atRisk - 1) / of_int atRisk))) \<and>
   calculateKaplanMeier
     [\<lparr>survivalTime = Some 1, eventTime = None, censored = False\<rparr>,
      \<lparr>survivalTime = Some 2, eventTime = None, censored = False\<rparr>,
      \<lparr>survivalTime = Some 3, eventTime = None, censored = False\<rparr>] =
     [\<lparr>time = Some 1, probability = 2 / 3, censoredPt = False\<rparr>,
      \<lparr>time = Some 2, probability = 1 / 3, censoredPt = False\<rparr>,
      \<lparr>time = Some 3, probability = 0, censoredPt = False\<rparr>] \<and>
   homeKaplanMeier
     [\<lparr>survivalTime = Some 1, eventTime = None, censored = False\<rparr>,
      \<lparr>survivalTime = Some 2, eventTime = None, censored = False\<rparr>,
      \<lparr>survivalTime = Some 3, eventTime = None, censored = False\<rparr>] =
     [\<lparr>time = Some 1, probability = 2 / 3, censoredPt = False\<rparr>,
      \<lparr>time = Some 2, probability = 1 / 3, censoredPt = False\<rparr>,
      \<lparr>time = Some 3, probability = 0, censoredPt = False\<rparr>]"
proof -
  have l1: "length (calculateKaplanMeier data) = length data"
    by (simp add: calculateKaplanMeier_def length_kmForEach)
  have l2: "length (homeKaplanMeier data) = length data"
    by (simp add: homeKaplanMeier_def length_kmForEach)
  have e1: "calculateKaplanMeier [] = []" by (simp add: calculateKaplanMeier_def)
  have e2: "homeKaplanMeier [] = []" by (simp add: homeKaplanMeier_def)
  note s1 = allI [OF impI [OF calculateKaplanMeier_nth]]
  note s2 = allI [OF impI [OF homeKaplanMeier_nth]]
  show ?thesis
    by (intro conjI l1 l2 e1 e2 s1 s2 kaplanMeier_three_events)
qed

theorem kaplanMeier_algorithm_witness:
  "(1::nat) < length
     [\<lparr>survivalTime = Some 1, eventTime = None, censored = False\<rparr>,
      \<lparr>survivalTime = Some 2, eventTime = None, censored = True\<rparr>,
      \<lparr>survivalTime = Some 3, eventTime = None, censored = False\<rparr>] \<and>
   probability (calculateKaplanMeier
     [\<lparr>survivalTime = Some 1, eventTime = None, censored = False\<rparr>,
      \<lparr>survivalTime = Some 2, eventTime = None, censored = True\<rparr>,
      \<lparr>survivalTime = Some 3, eventTime = None, censored = False\<rparr>] ! 1) =
   probability (calculateKaplanMeier
     [\<lparr>survivalTime = Some 1, eventTime = None, censored = False\<rparr>,
      \<lparr>survivalTime = Some 2, eventTime = None, censored = True\<rparr>,
      \<lparr>survivalTime = Some 3, eventTime = None, censored = False\<rparr>] ! 0)"
proof -
  let ?ex = "[\<lparr>survivalTime = Some 1, eventTime = None, censored = False\<rparr>,
      \<lparr>survivalTime = Some 2, eventTime = None, censored = True\<rparr>,
      \<lparr>survivalTime = Some (3::real), eventTime = None, censored = False\<rparr>]"
  have len: "(1::nat) < length ?ex" by simp
  note all = kaplanMeier_algorithm [of ?ex]
  note steps = conjunct1 [OF conjunct2 [OF conjunct2 [OF conjunct2 [OF conjunct2 [OF all]]]]]
  from steps [rule_format, OF len] len show ?thesis by simp
qed

lemma calculateKaplanMeier_nonincreasing:
  assumes "i \<le> j" and "j < length data"
  shows "probability (calculateKaplanMeier data ! j) \<le> probability (calculateKaplanMeier data ! i)"
proof (cases "i = j")
  case True
  then show ?thesis by simp
next
  case False
  with assms have ij: "i < j" by simp
  have "sorted_wrt (\<lambda>a b. probability b \<le> probability a) (calculateKaplanMeier data)"
    unfolding calculateKaplanMeier_def by (rule kmForEach_nonincreasing) simp_all
  moreover from assms(2) have "j < length (calculateKaplanMeier data)"
    by (simp add: calculateKaplanMeier_def length_kmForEach)
  ultimately show ?thesis using ij by (simp add: sorted_wrt_iff_nth_less)
qed

lemma sortedByTime_nth:
  assumes "sortedByTime data" and "i < j" and "j < length data"
  shows "\<exists>s t. recordTime (data ! i) = Some s \<and> recordTime (data ! j) = Some t \<and> s \<le> t"
proof -
  from assms have "case (recordTime (data ! i), recordTime (data ! j)) of
      (Some s, Some t) \<Rightarrow> s \<le> t | _ \<Rightarrow> False"
    by (simp add: sortedByTime_def sorted_wrt_iff_nth_less)
  then show ?thesis by (simp split: option.splits)
qed

lemma calculateKaplanMeier_time_order:
  assumes sorted: "sortedByTime data" and i: "i < length data" and j: "j < length data"
    and s: "time (calculateKaplanMeier data ! i) = Some s"
    and t: "time (calculateKaplanMeier data ! j) = Some t" and st: "s < t"
  shows "probability (calculateKaplanMeier data ! j) \<le> probability (calculateKaplanMeier data ! i)"
proof (cases "i \<le> j")
  case True
  then show ?thesis using j by (rule calculateKaplanMeier_nonincreasing)
next
  case False
  then have ji: "j < i" by simp
  from s t have "recordTime (data ! i) = Some s" "recordTime (data ! j) = Some t"
    using calculateKaplanMeier_nth [OF i] calculateKaplanMeier_nth [OF j] by simp_all
  with sortedByTime_nth [OF sorted ji i] have "t \<le> s" by simp
  with st show ?thesis by simp
qed

lemma calculateKaplanMeier_drop_uncensored:
  assumes "Suc i < length data"
    and "probability (calculateKaplanMeier data ! Suc i) < probability (calculateKaplanMeier data ! i)"
  shows "\<not> censored (data ! Suc i)"
proof
  assume "censored (data ! Suc i)"
  with calculateKaplanMeier_nth [OF assms(1)]
  have "probability (calculateKaplanMeier data ! Suc i) = probability (calculateKaplanMeier data ! i)"
    by (simp add: Let_def)
  with assms(2) show False by simp
qed

text \<open>
  C4. For data sorted ascending by time, the probabilities of \<^verbatim>\<open>calculateKaplanMeier\<close>
  do not increase as time increases: a point with a later time never has a larger
  probability, and along the output no point has a larger probability than an earlier
  one. The probability is strictly smaller than at the previous point only when the
  later record is uncensored.
\<close>

theorem kaplanMeier_nonincreasing:
  assumes "sortedByTime data"
  shows "(\<forall>i<length data. \<forall>j<length data. \<forall>s t.
            time (calculateKaplanMeier data ! i) = Some s \<and>
            time (calculateKaplanMeier data ! j) = Some t \<and> s < t \<longrightarrow>
            probability (calculateKaplanMeier data ! j)
              \<le> probability (calculateKaplanMeier data ! i)) \<and>
         (\<forall>i j. i \<le> j \<and> j < length data \<longrightarrow>
            probability (calculateKaplanMeier data ! j)
              \<le> probability (calculateKaplanMeier data ! i)) \<and>
         (\<forall>i. Suc i < length data \<and>
              probability (calculateKaplanMeier data ! Suc i)
                < probability (calculateKaplanMeier data ! i) \<longrightarrow>
              \<not> censored (data ! Suc i))"
proof (intro conjI allI impI)
  fix i j s t
  assume "i < length data" "j < length data"
    and "time (calculateKaplanMeier data ! i) = Some s \<and>
         time (calculateKaplanMeier data ! j) = Some t \<and> s < t"
  with assms show "probability (calculateKaplanMeier data ! j)
      \<le> probability (calculateKaplanMeier data ! i)"
    using calculateKaplanMeier_time_order [of data i j s t] by simp
next
  fix i j :: nat
  assume "i \<le> j \<and> j < length data"
  then show "probability (calculateKaplanMeier data ! j)
      \<le> probability (calculateKaplanMeier data ! i)"
    using calculateKaplanMeier_nonincreasing [of i j data] by simp
next
  fix i
  assume "Suc i < length data \<and>
     probability (calculateKaplanMeier data ! Suc i) < probability (calculateKaplanMeier data ! i)"
  then show "\<not> censored (data ! Suc i)"
    using calculateKaplanMeier_drop_uncensored [of i data] by simp
qed

theorem kaplanMeier_nonincreasing_witness:
  "sortedByTime
     [\<lparr>survivalTime = Some 1, eventTime = None, censored = False\<rparr>,
      \<lparr>survivalTime = Some 2, eventTime = None, censored = True\<rparr>,
      \<lparr>survivalTime = None, eventTime = Some 3, censored = False\<rparr>] \<and>
   probability (calculateKaplanMeier
     [\<lparr>survivalTime = Some 1, eventTime = None, censored = False\<rparr>,
      \<lparr>survivalTime = Some 2, eventTime = None, censored = True\<rparr>,
      \<lparr>survivalTime = None, eventTime = Some 3, censored = False\<rparr>] ! 2)
   \<le> probability (calculateKaplanMeier
     [\<lparr>survivalTime = Some 1, eventTime = None, censored = False\<rparr>,
      \<lparr>survivalTime = Some 2, eventTime = None, censored = True\<rparr>,
      \<lparr>survivalTime = None, eventTime = Some 3, censored = False\<rparr>] ! 0)"
proof -
  let ?ex = "[\<lparr>survivalTime = Some 1, eventTime = None, censored = False\<rparr>,
      \<lparr>survivalTime = Some 2, eventTime = None, censored = True\<rparr>,
      \<lparr>survivalTime = None, eventTime = Some (3::real), censored = False\<rparr>]"
  have sorted: "sortedByTime ?ex"
    by (simp add: sortedByTime_def recordTime_def jsOr_def)
  have idx: "(0::nat) \<le> 2 \<and> 2 < length ?ex" by simp
  note mono = conjunct1 [OF conjunct2 [OF kaplanMeier_nonincreasing [OF sorted]]]
  from mono [rule_format, OF idx] sorted show ?thesis by simp
qed

lemma calculateKaplanMeier_range:
  assumes "i < length data"
  shows "0 \<le> probability (calculateKaplanMeier data ! i) \<and>
         probability (calculateKaplanMeier data ! i) \<le> 1"
proof -
  from assms have "calculateKaplanMeier data ! i \<in> set (calculateKaplanMeier data)"
    by (simp add: calculateKaplanMeier_def length_kmForEach)
  then show ?thesis
    unfolding calculateKaplanMeier_def
    using kmForEach_range [of data "int (length data)" 1] by simp
qed

lemma calculateKaplanMeier_positive:
  assumes "Suc i < length data"
  shows "0 < probability (calculateKaplanMeier data ! i)"
  unfolding calculateKaplanMeier_def
  using assms by (intro kmForEach_positive) simp_all

lemma calculateKaplanMeier_last:
  assumes "Suc i = length data"
  shows "probability (calculateKaplanMeier data ! i) = 0 \<longleftrightarrow> \<not> censored (data ! i)"
proof -
  from assms have i: "i < length data" by simp
  let ?prev = "if i = 0 then 1 else probability (calculateKaplanMeier data ! (i - 1))"
  have prev: "0 < ?prev"
  proof (cases i)
    case 0
    then show ?thesis by simp
  next
    case (Suc k)
    with i have "Suc k < length data" by simp
    from calculateKaplanMeier_positive [OF this] Suc show ?thesis by simp
  qed
  from assms have "int (length data) - int i = 1" by simp
  with calculateKaplanMeier_nth [OF i]
  have "probability (calculateKaplanMeier data ! i) = (if censored (data ! i) then ?prev else 0)"
    by (simp add: Let_def)
  with prev show ?thesis by (simp split: if_splits)
qed

text \<open>
  C9 as stated, every emitted probability lies in \<open>(0, 1]\<close>, fails: the third of three
  uncensored events is emitted with probability 0.
\<close>

theorem kaplanMeier_probability_zero_counterexample:
  "[\<lparr>survivalTime = Some 1, eventTime = None, censored = False\<rparr>,
    \<lparr>survivalTime = Some 2, eventTime = None, censored = False\<rparr>,
    \<lparr>survivalTime = Some 3, eventTime = None, censored = False\<rparr>] \<noteq> [] \<and>
   2 < length (calculateKaplanMeier
     [\<lparr>survivalTime = Some 1, eventTime = None, censored = False\<rparr>,
      \<lparr>survivalTime = Some 2, eventTime = None, censored = False\<rparr>,
      \<lparr>survivalTime = Some 3, eventTime = None, censored = False\<rparr>]) \<and>
   \<not> 0 < probability (calculateKaplanMeier
     [\<lparr>survivalTime = Some 1, eventTime = None, censored = False\<rparr>,
      \<lparr>survivalTime = Some 2, eventTime = None, censored = False\<rparr>,
      \<lparr>survivalTime = Some 3, eventTime = None, censored = False\<rparr>] ! 2)"
  by (simp add: kaplanMeier_three_events)

text \<open>
  C9, amended. Every point emitted by \<^verbatim>\<open>calculateKaplanMeier\<close> has a probability in
  the closed range \<open>[0, 1]\<close>. It is strictly positive at every point but the last, and
  the last point has probability 0 exactly when the last record is uncensored.
\<close>

theorem kaplanMeier_probability_range:
  "\<forall>i<length data.
     0 \<le> probability (calculateKaplanMeier data ! i) \<and>
     probability (calculateKaplanMeier data ! i) \<le> 1 \<and>
     (Suc i < length data \<longrightarrow> 0 < probability (calculateKaplanMeier data ! i)) \<and>
     (Suc i = length data \<longrightarrow>
        (probability (calculateKaplanMeier data ! i) = 0 \<longleftrightarrow> \<not> censored (data ! i)))"
  using calculateKaplanMeier_range calculateKaplanMeier_positive calculateKaplanMeier_last
  by blast

theorem kaplanMeier_probability_range_witness:
  "(2::nat) < length
     [\<lparr>survivalTime = Some 1, eventTime = None, censored = False\<rparr>,
      \<lparr>survivalTime = Some 2, eventTime = None, censored = True\<rparr>,
      \<lparr>survivalTime = Some 3, eventTime = None, censored = False\<rparr>] \<and>
   probability (calculateKaplanMeier
     [\<lparr>survivalTime = Some 1, eventTime = None, censored = False\<rparr>,
      \<lparr>survivalTime = Some 2, eventTime = None, censored = True\<rparr>,
      \<lparr>survivalTime = Some 3, eventTime = None, censored = False\<rparr>] ! 2) = 0"
proof -
  let ?ex = "[\<lparr>survivalTime = Some 1, eventTime = None, censored = False\<rparr>,
      \<lparr>survivalTime = Some 2, eventTime = None, censored = True\<rparr>,
      \<lparr>survivalTime = Some (3::real), eventTime = None, censored = False\<rparr>]"
  have len: "(2::nat) < length ?ex" by simp
  from kaplanMeier_probability_range [of ?ex, rule_format, OF len] len
  show ?thesis by simp
qed

lemma kaplanMeier_same_flags:
  assumes len: "length data = length data'"
    and flags: "\<forall>i<length data. censored (data ! i) = censored (data' ! i)"
    and i: "i < length data"
  shows "probability (kmForEach tm data (int (length data)) 1 [] ! i) =
         probability (kmForEach tm' data' (int (length data')) 1 [] ! i)"
proof -
  from len flags have "map censored data = map censored data'"
    by (simp add: list_eq_iff_nth_eq)
  then have "map probability (kmForEach tm data (int (length data)) 1 []) =
             map probability (kmForEach tm' data' (int (length data)) 1 [])"
    by (rule kmForEach_censored_only)
  then have "map probability (kmForEach tm data (int (length data)) 1 []) ! i =
             map probability (kmForEach tm' data' (int (length data')) 1 []) ! i"
    by (simp add: len)
  with i len show ?thesis by (simp add: length_kmForEach)
qed

text \<open>
  C10. The probabilities depend only on the length of the input and on the censored
  flags: two inputs of the same length with the same flag at every index give the same
  probability at every index, whatever their times, in both copies of the loop (which
  agree with each other). The times are copied to the output: \<^verbatim>\<open>calculateKaplanMeier\<close>
  stores \<^verbatim>\<open>d.survivalTime || d.eventTime\<close>, the copy in Home stores
  \<^verbatim>\<open>d.survivalTime\<close>.
\<close>

theorem kaplanMeier_times_irrelevant:
  assumes "length data = length data'"
    and "\<forall>i<length data. censored (data ! i) = censored (data' ! i)"
  shows "\<forall>i<length data.
           probability (calculateKaplanMeier data ! i)
             = probability (calculateKaplanMeier data' ! i) \<and>
           probability (homeKaplanMeier data ! i)
             = probability (homeKaplanMeier data' ! i) \<and>
           probability (homeKaplanMeier data ! i)
             = probability (calculateKaplanMeier data ! i) \<and>
           time (calculateKaplanMeier data ! i) = recordTime (data ! i) \<and>
           time (homeKaplanMeier data ! i) = survivalTime (data ! i)"
proof (intro allI impI conjI)
  fix i assume i: "i < length data"
  show "probability (calculateKaplanMeier data ! i) = probability (calculateKaplanMeier data' ! i)"
    unfolding calculateKaplanMeier_def using assms i by (rule kaplanMeier_same_flags)
  show "probability (homeKaplanMeier data ! i) = probability (homeKaplanMeier data' ! i)"
    unfolding homeKaplanMeier_def using assms i by (rule kaplanMeier_same_flags)
  show "probability (homeKaplanMeier data ! i) = probability (calculateKaplanMeier data ! i)"
    unfolding homeKaplanMeier_def calculateKaplanMeier_def
    using i by (intro kaplanMeier_same_flags) simp_all
  show "time (calculateKaplanMeier data ! i) = recordTime (data ! i)"
    using calculateKaplanMeier_nth [OF i] by simp
  show "time (homeKaplanMeier data ! i) = survivalTime (data ! i)"
    using homeKaplanMeier_nth [OF i] by simp
qed

theorem kaplanMeier_times_irrelevant_witness:
  "length [\<lparr>survivalTime = Some 1, eventTime = None, censored = False\<rparr>,
           \<lparr>survivalTime = Some 2, eventTime = None, censored = True\<rparr>] =
   length [\<lparr>survivalTime = Some 10, eventTime = None, censored = False\<rparr>,
           \<lparr>survivalTime = None, eventTime = Some 70, censored = True\<rparr>] \<and>
   probability (calculateKaplanMeier
          [\<lparr>survivalTime = Some 1, eventTime = None, censored = False\<rparr>,
           \<lparr>survivalTime = Some 2, eventTime = None, censored = True\<rparr>] ! 1) =
   probability (calculateKaplanMeier
          [\<lparr>survivalTime = Some 10, eventTime = None, censored = False\<rparr>,
           \<lparr>survivalTime = None, eventTime = Some 70, censored = True\<rparr>] ! 1)"
proof -
  let ?a = "[\<lparr>survivalTime = Some (1::real), eventTime = None, censored = False\<rparr>,
           \<lparr>survivalTime = Some 2, eventTime = None, censored = True\<rparr>]"
  let ?b = "[\<lparr>survivalTime = Some (10::real), eventTime = None, censored = False\<rparr>,
           \<lparr>survivalTime = None, eventTime = Some 70, censored = True\<rparr>]"
  have len: "length ?a = length ?b" by simp
  have flags: "\<forall>i<length ?a. censored (?a ! i) = censored (?b ! i)"
    by (simp add: less_Suc_eq)
  have i: "(1::nat) < length ?a" by simp
  from kaplanMeier_times_irrelevant [OF len flags, rule_format, OF i] len
  show ?thesis by simp
qed

section \<open>Doubles that are exact\<close>

text \<open>Powers of two in the range of the doubles, and integers below \<open>2\<^sup>5\<^sup>3\<close>, are doubles.\<close>

lemma pow2_le_1: "k \<le> 0 \<Longrightarrow> pow2 k \<le> 1"
  using pow2_le_iff [of k 0] by simp

lemma pow2_less_1: "k < 0 \<Longrightarrow> pow2 k < 1"
  using pow2_less_iff [of k 0] by simp

lemma fl64_pow2: "- 1074 \<le> k \<Longrightarrow> k \<le> 1023 \<Longrightarrow> fl64 (pow2 k) = Num (pow2 k)"
proof -
  assume k: "- 1074 \<le> k" "k \<le> 1023"
  have "pow2 k = of_int 1 * pow2 k" by simp
  moreover have "\<bar>1::int\<bar> < 2 ^ 53" by simp
  moreover from k(2) have "k < 1024" by simp
  then have "\<bar>pow2 k\<bar> < pow2 1024" by (simp only: abs_of_pos [OF pow2_pos] pow2_less_iff)
  ultimately show ?thesis using k(1) by (intro fl64_exact [of _ 1 k])
qed

lemma fl64_1 [simp]: "fl64 1 = Num 1"
  using fl64_pow2 [of 0] by simp

lemma isDouble_1 [simp]: "isDouble 1"
  by (simp add: isDouble_def)

lemma fl64_of_int: "\<bar>m\<bar> < 2 ^ 53 \<Longrightarrow> fl64 (of_int m) = Num (of_int m)"
proof -
  assume m: "\<bar>m\<bar> < 2 ^ 53"
  have x: "(of_int m :: real) = of_int m * pow2 0" by simp
  from m have "\<bar>of_int m :: real\<bar> < 2 ^ 53"
    by (metis of_int_abs of_int_less_numeral_power_cancel_iff)
  also have "\<dots> = pow2 53" by (simp add: pow2_def)
  also have "\<dots> < pow2 1024" by (simp only: pow2_less_iff)
  finally show ?thesis using x m by (intro fl64_exact [of _ m 0]) simp_all
qed

lemma fl64_numeral [simp]:
  "(numeral n :: int) < 2 ^ 53 \<Longrightarrow> fl64 (numeral n) = Num (numeral n)"
  using fl64_of_int [of "numeral n"] by simp

lemma fl64_neg_numeral [simp]:
  "(numeral n :: int) < 2 ^ 53 \<Longrightarrow> fl64 (- numeral n) = Num (- numeral n)"
  using fl64_of_int [of "- numeral n"] by simp

lemma fl64_neg_1 [simp]: "fl64 (- 1) = Num (- 1)"
  using fl64_of_int [of "- 1"] by simp

lemma isDouble_0 [simp]: "isDouble 0"
  by (simp add: isDouble_def)

lemma isDouble_numeral [simp]: "(numeral n :: int) < 2 ^ 53 \<Longrightarrow> isDouble (numeral n)"
  by (simp add: isDouble_def)

lemma isDouble_neg_numeral [simp]:
  "(numeral n :: int) < 2 ^ 53 \<Longrightarrow> isDouble (- numeral n)"
  by (simp add: isDouble_def)

lemma isDouble_neg_1 [simp]: "isDouble (- 1)"
  by (simp add: isDouble_def)

section \<open>The Poisson loop\<close>

text \<open>
  The loop returns exactly when the running product of the draws, each product rounded
  to a double, is no longer above \<open>L\<close>, at the first such draw.
\<close>

lemma poissonLoop_exit:
  "\<not> jsGreater (jsMul p (Num (draws pos))) L \<Longrightarrow>
   poissonLoop L draws k p pos = Some (jsIncr k, Suc pos)"
  by (subst poissonLoop.simps) (simp add: Let_def)

lemma poissonLoop_continue:
  "jsGreater (jsMul p (Num (draws pos))) L \<Longrightarrow>
   poissonLoop L draws k p pos =
     poissonLoop L draws (jsIncr k) (jsMul p (Num (draws pos))) (Suc pos)"
  by (subst poissonLoop.simps) (simp add: Let_def)

lemma runningProduct_shift:
  "runningProduct p draws pos (Suc n) =
     runningProduct (jsMul p (Num (draws pos))) draws (Suc pos) n"
  by (induction n) simp_all

lemma poissonLoop_returns:
  "\<not> jsGreater (runningProduct p draws pos (Suc n)) L \<Longrightarrow>
   \<forall>m<n. jsGreater (runningProduct p draws pos (Suc m)) L \<Longrightarrow>
   poissonLoop L draws k p pos = Some ((jsIncr ^^ Suc n) k, pos + n + 1)"
proof (induction n arbitrary: k p pos)
  case 0
  then show ?case by (simp add: poissonLoop_exit)
next
  case (Suc n)
  from Suc.prems(2) have first: "jsGreater (jsMul p (Num (draws pos))) L" by force
  let ?p = "jsMul p (Num (draws pos))"
  from Suc.prems(1) have a: "\<not> jsGreater (runningProduct ?p draws (Suc pos) (Suc n)) L"
    unfolding runningProduct_shift [of p draws pos "Suc n"] .
  have b: "\<forall>m<n. jsGreater (runningProduct ?p draws (Suc pos) (Suc m)) L"
  proof (intro allI impI)
    fix m assume "m < n"
    then have "Suc m < Suc n" by simp
    with Suc.prems(2) have "jsGreater (runningProduct p draws pos (Suc (Suc m))) L" by blast
    then show "jsGreater (runningProduct ?p draws (Suc pos) (Suc m)) L"
      unfolding runningProduct_shift [of p draws pos "Suc m"] .
  qed
  from Suc.IH [OF a b, of "jsIncr k"] first show ?case
    by (simp add: poissonLoop_continue funpow_swap1)
qed

lemma poissonLoop_Some:
  assumes ret: "poissonLoop L draws k p pos = Some r"
  shows "\<exists>n. \<not> jsGreater (runningProduct p draws pos (Suc n)) L \<and>
       (\<forall>m<n. jsGreater (runningProduct p draws pos (Suc m)) L) \<and>
       r = ((jsIncr ^^ Suc n) k, pos + n + 1)"
proof -
  let ?P = "\<lambda>(L::jsnum) (draws::draws) (k::int) (p::jsnum) (pos::nat) (r::int \<times> nat).
     \<exists>n. \<not> jsGreater (runningProduct p draws pos (Suc n)) L \<and>
       (\<forall>m<n. jsGreater (runningProduct p draws pos (Suc m)) L) \<and>
       r = ((jsIncr ^^ Suc n) k, pos + n + 1)"
  have "?P L draws k p pos r"
  proof (rule poissonLoop.raw_induct [where P = ?P, OF _ ret])
    fix loop :: "jsnum \<Rightarrow> draws \<Rightarrow> int \<Rightarrow> jsnum \<Rightarrow> nat \<Rightarrow> (int \<times> nat) option"
    fix L draws k p pos r
    assume IH: "\<And>L draws k p pos r. loop L draws k p pos = Some r \<Longrightarrow> ?P L draws k p pos r"
    assume body: "(let k' = jsIncr k; p' = jsMul p (Num (draws pos))
                   in if jsGreater p' L then loop L draws k' p' (Suc pos)
                      else Some (k', Suc pos)) = Some r"
    let ?p = "jsMul p (Num (draws pos))"
    show "?P L draws k p pos r"
    proof (cases "jsGreater ?p L")
      case False
      with body have "r = (jsIncr k, Suc pos)" by (simp add: Let_def)
      with False show ?thesis by (intro exI [of _ 0]) simp
    next
      case True
      with body have "loop L draws (jsIncr k) ?p (Suc pos) = Some r"
        by (simp add: Let_def)
      from IH [OF this] obtain n where
        ex: "\<not> jsGreater (runningProduct ?p draws (Suc pos) (Suc n)) L \<and>
           (\<forall>m<n. jsGreater (runningProduct ?p draws (Suc pos) (Suc m)) L) \<and>
           r = ((jsIncr ^^ Suc n) (jsIncr k), Suc pos + n + 1)" ..
      note n = conjunct1 [OF ex] conjunct1 [OF conjunct2 [OF ex]]
        conjunct2 [OF conjunct2 [OF ex]]
      have "\<not> jsGreater (runningProduct p draws pos (Suc (Suc n))) L"
        using n(1) unfolding runningProduct_shift [of p draws pos "Suc n"] .
      moreover have "\<forall>m<Suc n. jsGreater (runningProduct p draws pos (Suc m)) L"
      proof (intro allI impI)
        fix m assume m: "m < Suc n"
        show "jsGreater (runningProduct p draws pos (Suc m)) L"
        proof (cases m)
          case 0
          with True show ?thesis by simp
        next
          case (Suc m')
          with m have "m' < n" by simp
          with n(2) have "jsGreater (runningProduct ?p draws (Suc pos) (Suc m')) L" by simp
          then show ?thesis unfolding Suc
            unfolding runningProduct_shift [of p draws pos "Suc m'"] .
        qed
      qed
      moreover have "r = ((jsIncr ^^ Suc (Suc n)) k, pos + Suc n + 1)"
        using n(3) by (simp add: funpow_swap1)
      ultimately show ?thesis by (intro exI [of _ "Suc n"] conjI)
    qed
  qed
  then show ?thesis .
qed

lemma jsIncr_funpow: "(jsIncr ^^ n) 0 = min (int n) (2 ^ 53)"
  by (induction n) (auto simp: jsIncr_def)

lemma mathExp_0: "mathExp (jsNeg (Num 0)) = Num 1"
  by simp

lemma poissonSample_returns_iff:
  "(\<exists>r. poissonSample lambda draws pos = Some r) \<longleftrightarrow>
   (\<exists>n. \<not> jsGreater (runningProduct (Num 1) draws pos (Suc n)) (mathExp (jsNeg (Num lambda))))"
proof
  assume "\<exists>r. poissonSample lambda draws pos = Some r"
  then obtain r where "poissonLoop (mathExp (jsNeg (Num lambda))) draws 0 (Num 1) pos = Some r"
    by (auto simp: poissonSample_def Let_def split: option.splits)
  from poissonLoop_Some [OF this]
  show "\<exists>n. \<not> jsGreater (runningProduct (Num 1) draws pos (Suc n)) (mathExp (jsNeg (Num lambda)))"
    by blast
next
  let ?L = "mathExp (jsNeg (Num lambda))"
  assume "\<exists>n. \<not> jsGreater (runningProduct (Num 1) draws pos (Suc n)) ?L"
  then obtain n where n: "\<not> jsGreater (runningProduct (Num 1) draws pos (Suc n)) ?L"
    and least: "\<forall>m<n. \<not> \<not> jsGreater (runningProduct (Num 1) draws pos (Suc m)) ?L"
    unfolding exists_least_iff
      [of "\<lambda>n. \<not> jsGreater (runningProduct (Num 1) draws pos (Suc n)) ?L"]
    by blast
  from least have b: "\<forall>m<n. jsGreater (runningProduct (Num 1) draws pos (Suc m)) ?L" by simp
  from poissonLoop_returns [OF n b, of 0]
  show "\<exists>r. poissonSample lambda draws pos = Some r"
    by (simp add: poissonSample_def Let_def del: funpow.simps runningProduct.simps)
qed

lemma poissonSample_value:
  assumes "poissonSample lambda draws pos = Some (k, pos')"
  shows "0 \<le> k \<and> pos < pos' \<and> k = min (int (pos' - pos) - 1) (2 ^ 53 - 1) \<and>
     \<not> jsGreater (runningProduct (Num 1) draws pos (pos' - pos)) (mathExp (jsNeg (Num lambda))) \<and>
     (\<forall>m. 0 < m \<and> m < pos' - pos \<longrightarrow>
        jsGreater (runningProduct (Num 1) draws pos m) (mathExp (jsNeg (Num lambda))))"
proof -
  let ?L = "mathExp (jsNeg (Num lambda))"
  from assms obtain r where r: "poissonLoop ?L draws 0 (Num 1) pos = Some r"
    and k: "k = fst r - 1" "pos' = snd r"
    by (auto simp: poissonSample_def Let_def split: option.splits)
  from poissonLoop_Some [OF r] obtain n where
    ex: "\<not> jsGreater (runningProduct (Num 1) draws pos (Suc n)) ?L \<and>
       (\<forall>m<n. jsGreater (runningProduct (Num 1) draws pos (Suc m)) ?L) \<and>
       r = ((jsIncr ^^ Suc n) 0, pos + n + 1)" ..
  note n = conjunct1 [OF ex] conjunct1 [OF conjunct2 [OF ex]] conjunct2 [OF conjunct2 [OF ex]]
  from n(3) k have pos': "pos' = pos + Suc n" by simp
  from n(3) k have kk: "k = min (int (Suc n)) (2 ^ 53) - 1" by (simp only: jsIncr_funpow fst_conv)
  have d: "pos' - pos = Suc n" using pos' by simp
  have 1: "0 \<le> k" using kk by simp
  have 2: "pos < pos'" using pos' by simp
  have 3: "k = min (int (pos' - pos) - 1) (2 ^ 53 - 1)" unfolding d kk by simp
  have 4: "\<not> jsGreater (runningProduct (Num 1) draws pos (pos' - pos)) ?L" unfolding d by (rule n(1))
  have 5: "\<forall>m. 0 < m \<and> m < pos' - pos \<longrightarrow> jsGreater (runningProduct (Num 1) draws pos m) ?L"
  proof (intro allI impI)
    fix m assume m: "0 < m \<and> m < pos' - pos"
    then obtain m' where m': "m = Suc m'" "m' < n" unfolding d by (cases m) simp_all
    with n(2) show "jsGreater (runningProduct (Num 1) draws pos m) ?L" by simp
  qed
  from 1 2 3 4 5 show ?thesis by (intro conjI)
qed

lemma poissonSample_zero:
  assumes "0 \<le> draws pos" and "draws pos \<le> 1"
  shows "poissonSample 0 draws pos = Some (0, Suc pos)"
proof -
  have "pow2 0 = 1" by simp
  with assms have "draws pos \<le> pow2 0" by simp
  from fl64_le_pow2 [OF assms(1) this] obtain r where r: "fl64 (draws pos) = Num r" "r \<le> 1"
    by auto
  then have "\<not> jsGreater (jsMul (Num 1) (Num (draws pos))) (Num 1)" by simp
  then have "poissonLoop (Num 1) draws 0 (Num 1) pos = Some (jsIncr 0, Suc pos)"
    by (rule poissonLoop_exit)
  then show ?thesis by (simp add: poissonSample_def jsIncr_def)
qed

text \<open>
  While the loop runs, the product is a double that has shrunk by the factor
  \<open>1 - 2\<^sup>-\<^sup>5\<^sup>4\<close> at every draw.
\<close>

lemma runningProduct_decay:
  assumes L: "pow2 (- 1022) \<le> l"
    and d: "\<forall>i. 0 \<le> draws i \<and> draws i \<le> 1 - pow2 (- 53)"
    and run: "\<forall>m. 0 < m \<and> m < n \<longrightarrow> jsGreater (runningProduct (Num 1) draws pos m) (Num l)"
  shows "\<exists>r. runningProduct (Num 1) draws pos n = Num r \<and> isDouble r \<and> 0 \<le> r \<and>
             r \<le> (1 - pow2 (- 54)) ^ n"
  using run
proof (induction n)
  case 0
  show ?case by simp
next
  case (Suc n)
  note prems = Suc.prems
  from prems have "\<forall>m. 0 < m \<and> m < n \<longrightarrow> jsGreater (runningProduct (Num 1) draws pos m) (Num l)"
    by simp
  from Suc.IH [OF this] obtain r where r: "runningProduct (Num 1) draws pos n = Num r"
    "isDouble r" "0 \<le> r" "r \<le> (1 - pow2 (- 54)) ^ n"
    by blast
  have big: "pow2 (- 1022) < r"
  proof (cases "n = 0")
    case True
    with r(1) have "r = 1" by simp
    moreover have "pow2 (- 1022) < 1" by (rule pow2_less_1) simp
    ultimately show ?thesis by simp
  next
    case False
    then have "0 < n \<and> n < Suc n" by simp
    with prems have "jsGreater (runningProduct (Num 1) draws pos n) (Num l)" by blast
    then have "l < r" by (simp only: r(1) jsGreater.simps)
    with L show ?thesis by simp
  qed
  from d have u: "0 \<le> draws (pos + n)" "draws (pos + n) \<le> 1 - pow2 (- 53)" by simp_all
  from fl64_mul_decrease [OF r(2) big u] obtain r' where
    r': "fl64 (r * draws (pos + n)) = Num r'" "0 \<le> r'" "r' \<le> r * (1 - pow2 (- 54))"
    by blast
  have c: "0 \<le> 1 - pow2 (- 54)"
  proof -
    have "pow2 (- 54) \<le> 1" by (rule pow2_le_1) simp
    then show ?thesis by simp
  qed
  from r(4) c have "r * (1 - pow2 (- 54)) \<le> (1 - pow2 (- 54)) ^ n * (1 - pow2 (- 54))"
    by (rule mult_right_mono)
  with r'(3) have "r' \<le> (1 - pow2 (- 54)) ^ n * (1 - pow2 (- 54))" by (rule order_trans)
  then have "r' \<le> (1 - pow2 (- 54)) ^ Suc n" by (simp add: mult.commute)
  moreover from r'(1) have "isDouble r'" by (rule fl64_isDouble)
  moreover have "runningProduct (Num 1) draws pos (Suc n) = Num r'" by (simp add: r(1) r'(1))
  ultimately show ?case using r'(2) by blast
qed

lemma runningProduct_reaches:
  assumes L: "pow2 (- 1022) \<le> l"
    and d: "\<forall>i. 0 \<le> draws i \<and> draws i \<le> 1 - pow2 (- 53)"
  shows "\<exists>n. \<not> jsGreater (runningProduct (Num 1) draws pos (Suc n)) (Num l)"
proof (rule ccontr)
  assume "\<not> ?thesis"
  then have all: "\<And>n. jsGreater (runningProduct (Num 1) draws pos (Suc n)) (Num l)" by simp
  have run: "\<forall>m. 0 < m \<and> m < n \<longrightarrow> jsGreater (runningProduct (Num 1) draws pos m) (Num l)" for n
  proof (intro allI impI)
    fix m assume "0 < m \<and> m < n"
    then obtain k where "m = Suc k" by (cases m) simp_all
    with all [of k] show "jsGreater (runningProduct (Num 1) draws pos m) (Num l)" by simp
  qed
  have l0: "0 < l" using L by (rule less_le_trans [OF pow2_pos])
  have c1: "1 - pow2 (- 54) < 1" by simp
  from real_arch_pow_inv [OF l0 c1] obtain N where N: "(1 - pow2 (- 54)) ^ N < l" by blast
  from runningProduct_decay [OF L d run [of "Suc N"]] obtain r where
    r: "runningProduct (Num 1) draws pos (Suc N) = Num r" "r \<le> (1 - pow2 (- 54)) ^ Suc N"
    by blast
  have c0: "0 \<le> 1 - pow2 (- 54)"
  proof -
    have "pow2 (- 54) \<le> 1" by (rule pow2_le_1) simp
    then show ?thesis by simp
  qed
  have "(1 - pow2 (- 54)) ^ Suc N \<le> (1 - pow2 (- 54)) ^ N"
    using c0 c1 by (intro power_decreasing) simp_all
  with r(2) N have "r < l" by linarith
  moreover from all [of N] r(1) have "l < r" by simp
  ultimately show False by simp
qed

lemma mathExp_normal:
  assumes "0 \<le> lambda" and "pow2 (- 1022) \<le> exp (- lambda)"
  shows "\<exists>l. mathExp (jsNeg (Num lambda)) = Num l \<and> pow2 (- 1022) \<le> l \<and> l \<le> 1"
proof -
  from assms(1) have "exp (- lambda) \<le> pow2 0" by simp
  from fl64_le_pow2 [OF _ this] obtain l where l: "fl64 (exp (- lambda)) = Num l" "l \<le> 1"
    by auto
  from fl64_ge_normal [OF assms(2) l(1)] l show ?thesis by simp
qed

text \<open>
  At the rate 800 the exponential \<open>exp (- 800)\<close> is below half of the smallest positive
  double, so \<open>L\<close> is 0. The draws 0.5 halve the product exactly down to the smallest
  positive double \<open>2\<^sup>-\<^sup>1\<^sup>0\<^sup>7\<^sup>4\<close>, and three quarters of that round back to it.
\<close>

lemma exp_eighth: "9 / 8 \<le> exp (1 / 8 :: real)"
  using exp_ge_add_one_self [of "1 / 8 :: real"] by simp

lemma pow_9_8: "(2::real) ^ 43 \<le> (9 / 8) ^ 256"
  by (simp add: power_divide)

lemma exp_800: "exp (- 800 :: real) \<le> pow2 (- 1075)"
proof -
  have "(2::real) ^ 1075 = (2 ^ 43) ^ 25" by (simp only: power_mult [symmetric]) simp
  also have "\<dots> \<le> ((9 / 8) ^ 256) ^ 25" using pow_9_8 by (rule power_mono) simp
  also have "\<dots> = (9 / 8) ^ 6400" by (simp only: power_mult [symmetric]) simp
  also have "\<dots> \<le> exp (1 / 8) ^ 6400" using exp_eighth by (rule power_mono) simp
  also have "\<dots> = exp (of_nat 6400 * (1 / 8))" by (simp only: exp_of_nat_mult)
  also have "\<dots> = exp 800" by simp
  finally have le: "(2::real) ^ 1075 \<le> exp 800" .
  have "exp (- 800 :: real) = inverse (exp 800)" by (rule exp_minus)
  also from le have "\<dots> \<le> inverse (2 ^ 1075)" by (rule le_imp_inverse_le) simp
  also have "\<dots> = pow2 (- 1075)" by (simp add: pow2_def inverse_eq_divide)
  finally show ?thesis .
qed

lemma mathExp_800: "mathExp (jsNeg (Num 800)) = Num 0"
proof -
  have "\<bar>exp (- 800 :: real)\<bar> \<le> pow2 (- 1075)" using exp_800 by simp
  then have "fl64 (exp (- 800)) = Num 0" by (rule fl64_underflow)
  then show ?thesis by simp
qed

lemma fl64_halve:
  assumes "- 1073 \<le> k" and "k \<le> 1023"
  shows "fl64 (pow2 k * (1 / 2)) = Num (pow2 (k - 1))"
proof -
  have "pow2 k = pow2 1 * pow2 (k - 1)" by (rule pow2_split)
  then have "pow2 k * (1 / 2) = pow2 (k - 1)" by simp
  moreover from assms have "fl64 (pow2 (k - 1)) = Num (pow2 (k - 1))"
    by (intro fl64_pow2) simp_all
  ultimately show ?thesis by simp
qed

lemma fl64_stall: "fl64 (pow2 (- 1074) * (3 / 4)) = Num (pow2 (- 1074))"
proof -
  define v where "v = pow2 (- 1074)"
  have v: "0 < v" by (simp add: v_def)
  define x where "x = v * (3 / 4)"
  from v have x0: "x \<noteq> 0" and xpos: "0 < x" by (simp_all add: x_def)
  have "x < v" using v by (simp add: x_def)
  also have "v < pow2 (- 1022)" unfolding v_def by (simp only: pow2_less_iff)
  finally have "\<bar>x\<bar> < pow2 (- 1022)" using xpos by simp
  with x0 have "expo x = - 1022" by (rule expo_subnormal)
  then have u: "ulp x = v" by (simp add: ulp_def v_def)
  have q: "x / v = 3 / 4" using v by (simp add: x_def)
  have "roundEven (3 / 4) = 0 + 1" by (rule roundEven_above_half) simp_all
  then have r: "roundEven (x / v) = 1" by (simp add: q)
  have "v < pow2 1024" unfolding v_def by (simp only: pow2_less_iff)
  with v have "\<not> pow2 1024 \<le> \<bar>v\<bar>" by simp
  with x0 have "fl64 x = Num v" by (simp add: fl64_def u r)
  then show ?thesis by (simp add: x_def v_def)
qed

lemma stalling_product_halves:
  "n \<le> 1074 \<Longrightarrow>
   runningProduct (Num 1) (drawsFrom (replicate 1074 (1 / 2)) (3 / 4)) 0 n = Num (pow2 (- int n))"
proof (induction n)
  case 0
  show ?case by simp
next
  case (Suc n)
  then have n: "n < 1074" by simp
  then have d: "drawsFrom (replicate 1074 (1 / 2)) (3 / 4) (0 + n) = 1 / 2"
    by (simp add: drawsFrom_def)
  from n have "fl64 (pow2 (- int n) * (1 / 2)) = Num (pow2 (- int n - 1))"
    by (intro fl64_halve) simp_all
  moreover have "- int n - 1 = - int (Suc n)" by simp
  ultimately have h: "fl64 (pow2 (- int n) * (1 / 2)) = Num (pow2 (- int (Suc n)))"
    by (simp only:)
  from n have "runningProduct (Num 1) (drawsFrom (replicate 1074 (1 / 2)) (3 / 4)) 0 n
      = Num (pow2 (- int n))" by (intro Suc.IH) simp
  then have "runningProduct (Num 1) (drawsFrom (replicate 1074 (1 / 2)) (3 / 4)) 0 (Suc n)
      = jsMul (Num (pow2 (- int n))) (Num (1 / 2))"
    by (simp only: runningProduct.simps d)
  also have "\<dots> = Num (pow2 (- int (Suc n)))" by (simp only: jsMul.simps h)
  finally show ?case .
qed

lemma stalling_product_stalls:
  "runningProduct (Num 1) (drawsFrom (replicate 1074 (1 / 2)) (3 / 4)) 0 (1074 + j)
     = Num (pow2 (- 1074))"
proof (induction j)
  case 0
  from stalling_product_halves [of 1074] show ?case by simp
next
  case (Suc j)
  have d: "drawsFrom (replicate 1074 (1 / 2)) (3 / 4) (0 + (1074 + j)) = 3 / 4"
    by (simp add: drawsFrom_def)
  have "runningProduct (Num 1) (drawsFrom (replicate 1074 (1 / 2)) (3 / 4)) 0 (Suc (1074 + j))
      = jsMul (Num (pow2 (- 1074))) (Num (3 / 4))"
    by (simp only: runningProduct.simps Suc.IH d)
  also have "\<dots> = Num (pow2 (- 1074))" using fl64_stall by simp
  finally show ?case by simp
qed

lemma stalling_product_positive:
  "\<exists>r. runningProduct (Num 1) (drawsFrom (replicate 1074 (1 / 2)) (3 / 4)) 0 n = Num r \<and> 0 < r"
proof (cases "n \<le> 1074")
  case True
  from stalling_product_halves [OF this] show ?thesis by simp
next
  case False
  then obtain j where "n = 1074 + j" by (metis le_add_diff_inverse nat_le_linear)
  with stalling_product_stalls [of j] show ?thesis by simp
qed

lemma poissonSample_stalls:
  "poissonSample 800 (drawsFrom (replicate 1074 (1 / 2)) (3 / 4)) 0 = None"
proof -
  let ?d = "drawsFrom (replicate 1074 (1 / 2)) (3 / 4)"
  have "\<not> (\<exists>n. \<not> jsGreater (runningProduct (Num 1) ?d 0 (Suc n)) (mathExp (jsNeg (Num 800))))"
  proof
    assume "\<exists>n. \<not> jsGreater (runningProduct (Num 1) ?d 0 (Suc n)) (mathExp (jsNeg (Num 800)))"
    then obtain n where n: "\<not> jsGreater (runningProduct (Num 1) ?d 0 (Suc n)) (Num 0)"
      unfolding mathExp_800 ..
    from stalling_product_positive [of "Suc n"] obtain r where
      "runningProduct (Num 1) ?d 0 (Suc n) = Num r" "0 < r" by blast
    with n show False by simp
  qed
  then have "\<not> (\<exists>r. poissonSample 800 ?d 0 = Some r)"
    unfolding poissonSample_returns_iff [of 800 ?d 0] .
  then show ?thesis by (cases "poissonSample 800 ?d 0") simp_all
qed

section \<open>Claims on the Poisson sampler\<close>

text \<open>
  C5. With rate 0 the sampler returns 0 for every random source with draws in \<open>[0, 1]\<close>:
  \<open>L = exp 0 = 1\<close>, the first product \<open>p\<close> is the first draw, rounded, which is not above
  \<open>L\<close>, so the loop exits after exactly one draw with \<open>k - 1 = 0\<close>.
\<close>

theorem poissonSample_rate_zero:
  assumes "\<forall>i. 0 \<le> draws i \<and> draws i \<le> 1"
  shows "poissonSample 0 draws pos = Some (0, pos + 1)"
  using assms by (simp add: poissonSample_zero)

theorem poissonSample_rate_zero_witness:
  "(\<forall>i. 0 \<le> drawsFrom [1, 1 / 2] (1 / 3) i \<and> drawsFrom [1, 1 / 2] (1 / 3) i \<le> 1) \<and>
   poissonSample 0 (drawsFrom [1, 1 / 2] (1 / 3)) 0 = Some (0, 1)"
proof -
  have range: "\<forall>i. 0 \<le> drawsFrom [1, 1 / 2] (1 / 3) i \<and> drawsFrom [1, 1 / 2] (1 / 3) i \<le> 1"
    by (simp add: drawsFrom_def nth_Cons split: nat.splits)
  from poissonSample_rate_zero [OF range, of 0] range show ?thesis by simp
qed

text \<open>
  C6 as stated, the sampler returns for every rate \<open>\<lambda> \<ge> 0\<close> and every sequence of draws
  in \<open>[0, 1]\<close>, fails in double arithmetic. At the rate 800, \<open>L = Math.exp(-800)\<close> is 0.
  On the draws 0.5 (1074 times) and then 0.75 for ever, all of them doubles in \<open>[0, 1)\<close>,
  the product \<open>p\<close> reaches the smallest positive double and stays there, above \<open>L\<close>: the
  loop never exits.
\<close>

theorem poissonSample_underflow_counterexample:
  "(0::real) \<le> 800 \<and>
   poissonSample 800 (drawsFrom (replicate 1074 (1 / 2)) (3 / 4)) 0 = None"
  using poissonSample_stalls by simp

text \<open>A rate and a random source in the range of the amended claim.\<close>

lemma exp_minus_one_normal: "pow2 (- 1022) \<le> exp (- 1 :: real)"
proof -
  have "pow2 (- 1022) \<le> pow2 (- 2)" by (simp only: pow2_le_iff)
  also have "\<dots> = 1 / 4" by (simp add: pow2_def)
  also have "\<dots> \<le> inverse 3" by simp
  also have "\<dots> \<le> inverse (exp (1::real))" using exp_le by (intro le_imp_inverse_le) simp_all
  also have "\<dots> = exp (- 1)" by (simp only: exp_minus)
  finally show ?thesis .
qed

lemma half_draws_range:
  "\<forall>i. 0 \<le> drawsFrom [] (1 / 2) i \<and> drawsFrom [] (1 / 2) i \<le> 1 - pow2 (- 53)"
proof -
  have "pow2 (- 53) \<le> pow2 (- 1)" by (simp only: pow2_le_iff)
  also have "\<dots> = 1 / 2" by (simp add: pow2_def)
  finally show ?thesis by (simp add: drawsFrom_def)
qed

text \<open>
  C6, amended. For every rate \<open>\<lambda> \<ge> 0\<close> whose exponential \<open>exp (- \<lambda>)\<close> is at least the
  smallest normal double \<open>2\<^sup>-\<^sup>1\<^sup>0\<^sup>2\<^sup>2\<close> (every rate up to 708), and every random source
  whose draws lie in \<open>[0, 1 - 2\<^sup>-\<^sup>5\<^sup>3]\<close>, the range of \<^verbatim>\<open>Math.random()\<close>, whose results are
  doubles below 1, the sampler terminates and returns a non-negative integer.
\<close>

theorem poissonSample_terminates_normal:
  assumes "0 \<le> lambda" and "pow2 (- 1022) \<le> exp (- lambda)"
    and "\<forall>i. 0 \<le> draws i \<and> draws i \<le> 1 - pow2 (- 53)"
  shows "\<exists>k pos'. poissonSample lambda draws pos = Some (k, pos') \<and> 0 \<le> k"
proof -
  from mathExp_normal [OF assms(1,2)] obtain l where
    l: "mathExp (jsNeg (Num lambda)) = Num l" "pow2 (- 1022) \<le> l" by blast
  from runningProduct_reaches [OF l(2) assms(3)]
  have "\<exists>n. \<not> jsGreater (runningProduct (Num 1) draws pos (Suc n)) (mathExp (jsNeg (Num lambda)))"
    by (simp only: l(1))
  then have "\<exists>r. poissonSample lambda draws pos = Some r"
    by (simp only: poissonSample_returns_iff)
  then obtain k pos' where r: "poissonSample lambda draws pos = Some (k, pos')" by force
  from poissonSample_value [OF r] r show ?thesis by blast
qed

theorem poissonSample_terminates_normal_witness:
  "(0::real) \<le> 1 \<and> pow2 (- 1022) \<le> exp (- 1 :: real) \<and>
   (\<forall>i. 0 \<le> drawsFrom [] (1 / 2) i \<and> drawsFrom [] (1 / 2) i \<le> 1 - pow2 (- 53)) \<and>
   (\<exists>k pos'. poissonSample 1 (drawsFrom [] (1 / 2)) 0 = Some (k, pos') \<and> 0 \<le> k)"
proof -
  have l: "(0::real) \<le> 1" by simp
  from poissonSample_terminates_normal [OF l exp_minus_one_normal half_draws_range, of 0]
    l exp_minus_one_normal half_draws_range
  show ?thesis by (intro conjI)
qed

section \<open>The linear estimator when no operation rounds\<close>

text \<open>
  When every intermediate value is a double, the loops of \<^verbatim>\<open>d3.mean\<close> and \<^verbatim>\<open>d3.sum\<close>
  return the exact sums, and the estimator returns the exact values of the formulas
  \<open>ssxy / ssxx\<close> and \<open>y\<^sub>m - slope \<sqdot> x\<^sub>m\<close>.
\<close>

lemma jsSub_Num: "jsSub (Num a) (Num b) = fl64 (a - b)"
  by (simp add: jsSub_def)

lemma jsSub_NaN [simp]: "jsSub a NaN = NaN" "jsSub NaN b = NaN"
  by (cases a; simp add: jsSub_def)+





lemma foldl_d3_sum_skip:
  "\<forall>v\<in>set vs. v = NaN \<or> v = Num 0 \<Longrightarrow>
   foldl (\<lambda>s v. if v = NaN \<or> v = Num 0 then s else jsAdd s v) s vs = s"
  by (induction vs arbitrary: s) auto

lemma d3_sum_skip: "\<forall>v\<in>set vs. v = NaN \<or> v = Num 0 \<Longrightarrow> d3_sum vs = Num 0"
  by (simp add: d3_sum_def foldl_d3_sum_skip)




















section \<open>The linear estimator on identical x values\<close>

text \<open>
  A quotient by the zero \<open>ssxx\<close> is NaN or an infinity, and so is the intercept computed
  from it. When every x value equals the computed mean, every deviation is 0, every
  square is 0 and every product is 0 or NaN, which \<^verbatim>\<open>d3.sum\<close> skips.
\<close>

lemma jsDiv_zero_not_finite: "\<not> isFinite (jsDiv a (Num 0))"
  by (cases a) (simp_all add: jsInf_def)

lemma jsMul_not_finite: "\<not> isFinite a \<Longrightarrow> \<not> isFinite (jsMul a b)"
  by (cases a; cases b) (simp_all add: jsInf_def)

lemma jsSub_not_finite: "\<not> isFinite b \<Longrightarrow> \<not> isFinite (jsSub a b)"
  by (cases a; cases b) (simp_all add: jsSub_def)

lemma jsMul_zero: "jsMul (Num 0) b = NaN \<or> jsMul (Num 0) b = Num 0"
  by (cases b) (simp_all add: jsInf_def)

lemma ssxxOf_constant: "\<forall>x\<in>set xs. x = c \<Longrightarrow> ssxxOf xs (Num c) = Num 0"
  unfolding ssxxOf_def by (rule d3_sum_skip) (auto simp: jsSub_Num)

lemma ssxyOfData_constant:
  assumes "\<forall>d\<in>set data. fst d = c"
  shows "ssxyOfData data (Num c) yMean = Num 0"
  unfolding ssxyOfData_def
proof (rule d3_sum_skip, rule ballI)
  fix v
  assume "v \<in> set (map (\<lambda>d. jsMul (jsSub (Num (fst d)) (Num c)) (jsSub (Num (snd d)) yMean)) data)"
  then obtain d where d: "d \<in> set data"
    and v: "v = jsMul (jsSub (Num (fst d)) (Num c)) (jsSub (Num (snd d)) yMean)"
    by auto
  from d assms have "jsSub (Num (fst d)) (Num c) = Num 0" by (simp add: jsSub_Num)
  with v jsMul_zero [of "jsSub (Num (snd d)) yMean"] show "v = NaN \<or> v = Num 0" by simp
qed

lemma ssxyOfColumns_constant:
  assumes "\<forall>x\<in>set xs. x = c"
  shows "ssxyOfColumns xs ys (Num c) yMean = Num 0"
  unfolding ssxyOfColumns_def
proof (rule d3_sum_skip, rule ballI)
  fix v
  assume "v \<in> set (map (\<lambda>(x, i). jsMul (jsSub (Num x) (Num c)) (jsSub (jsIndex ys i) yMean))
                         (zip xs [0..<length xs]))"
  then obtain x i where x: "x \<in> set xs"
    and v: "v = jsMul (jsSub (Num x) (Num c)) (jsSub (jsIndex ys i) yMean)"
    by (auto dest: set_zip_leftD)
  from x assms have "jsSub (Num x) (Num c) = Num 0" by (simp add: jsSub_Num)
  with v jsMul_zero [of "jsSub (jsIndex ys i) yMean"] show "v = NaN \<or> v = Num 0" by simp
qed

lemma zero_ssxx_fit:
  "\<not> isFinite (jsDiv ssxy (Num 0))"
  "\<not> isFinite (jsSub yMean (jsMul (jsDiv ssxy (Num 0)) xMean))"
  by (intro jsDiv_zero_not_finite jsSub_not_finite jsMul_not_finite)+

lemma zero_over_zero: "jsDiv (Num 0) (Num 0) = NaN" "jsSub yMean (jsMul NaN xMean) = NaN"
  by (simp_all add: jsInf_def)

lemma linearRegressionFit_zero_ssxx:
  assumes "ssxxOf (map fst data) (d3_mean (map fst data)) = Num 0"
  shows "\<not> isFinite (slope (linearRegressionFit data)) \<and>
         \<not> isFinite (intercept (linearRegressionFit data))"
  unfolding linearRegressionFit_def Let_def assms by (simp add: zero_ssxx_fit del: jsDiv.simps)

lemma multipleRegressionFit_zero_ssxx:
  assumes "ssxxOf xs (d3_mean xs) = Num 0"
  shows "\<not> isFinite (slope (multipleRegressionFit xs ys)) \<and>
         \<not> isFinite (intercept (multipleRegressionFit xs ys))"
  unfolding multipleRegressionFit_def Let_def assms by (simp add: zero_ssxx_fit del: jsDiv.simps)

lemma linearRegressionFit_degenerate:
  assumes "\<forall>d\<in>set data. fst d = c" and m: "d3_mean (map fst data) = Num c"
  shows "ssxxOf (map fst data) (d3_mean (map fst data)) = Num 0 \<and>
         ssxyOfData data (d3_mean (map fst data)) (d3_mean (map snd data)) = Num 0 \<and>
         linearRegressionFit data = \<lparr>slope = NaN, intercept = NaN\<rparr>"
proof -
  from assms(1) have xx: "ssxxOf (map fst data) (Num c) = Num 0"
    by (intro ssxxOf_constant) auto
  have xy: "ssxyOfData data (Num c) (d3_mean (map snd data)) = Num 0"
    using assms(1) by (rule ssxyOfData_constant)
  have "linearRegressionFit data = \<lparr>slope = NaN, intercept = NaN\<rparr>"
    unfolding linearRegressionFit_def Let_def m xx xy zero_over_zero ..
  with xx xy show ?thesis unfolding m by (intro conjI)
qed

lemma multipleRegressionFit_degenerate:
  assumes "\<forall>x\<in>set xs. x = c" and m: "d3_mean xs = Num c"
  shows "ssxxOf xs (d3_mean xs) = Num 0 \<and>
         ssxyOfColumns xs ys (d3_mean xs) (d3_mean ys) = Num 0 \<and>
         multipleRegressionFit xs ys = \<lparr>slope = NaN, intercept = NaN\<rparr>"
proof -
  from assms(1) have xx: "ssxxOf xs (Num c) = Num 0" by (rule ssxxOf_constant)
  have xy: "ssxyOfColumns xs ys (Num c) (d3_mean ys) = Num 0"
    using assms(1) by (rule ssxyOfColumns_constant)
  have "multipleRegressionFit xs ys = \<lparr>slope = NaN, intercept = NaN\<rparr>"
    unfolding multipleRegressionFit_def Let_def m xx xy zero_over_zero ..
  with xx xy show ?thesis unfolding m by (intro conjI)
qed

lemma d3_mean_examples: "d3_mean [1, 1] = Num 1" "d3_mean [5, 5, 5] = Num 5"
  by (simp_all add: d3_mean_def)

section \<open>Claims on the linear estimator\<close>




text \<open>
  C3 as stated, identical x values make the estimator signal InvalidInput instead of
  returning a non-finite slope or intercept, fails: the computation has no error path,
  and on two points with the same x it returns NaN for both.
\<close>

theorem degenerate_fit_counterexample:
  "linearRegressionFit [(1, 2), (1, 3)] = \<lparr>slope = NaN, intercept = NaN\<rparr> \<and>
   multipleRegressionFit [1, 1] [2, 3] = \<lparr>slope = NaN, intercept = NaN\<rparr>"
proof -
  have "d3_mean (map fst [(1::real, 2::real), (1, 3)]) = Num 1" by (simp add: d3_mean_examples)
  moreover have "\<forall>d\<in>set [(1::real, 2::real), (1, 3)]. fst d = 1" by simp
  ultimately have "linearRegressionFit [(1, 2), (1, 3)] = \<lparr>slope = NaN, intercept = NaN\<rparr>"
    using linearRegressionFit_degenerate [of "[(1, 2), (1, 3)]" 1] by blast
  moreover have "\<forall>x\<in>set [1, 1 :: real]. x = 1" by simp
  then have "multipleRegressionFit [1, 1] [2, 3] = \<lparr>slope = NaN, intercept = NaN\<rparr>"
    using multipleRegressionFit_degenerate [of "[1, 1]" 1 "[2, 3]"] d3_mean_examples(1) by blast
  ultimately show ?thesis ..
qed

text \<open>
  C3, amended. For every input whose computed \<open>ssxx\<close> is 0, as it is when all x values
  are identical and their computed mean is that same value, the estimator signals no
  error: it returns a result whose slope and intercept are both non-finite (NaN or an
  infinity). This holds for the computation in \<^verbatim>\<open>LinearRegression\<close> and for the one in
  \<^verbatim>\<open>MultipleRegression\<close>.
\<close>

theorem degenerate_fit_not_finite:
  "(ssxxOf (map fst data) (d3_mean (map fst data)) = Num 0 \<longrightarrow>
      \<not> isFinite (slope (linearRegressionFit data)) \<and>
      \<not> isFinite (intercept (linearRegressionFit data))) \<and>
   (ssxxOf xs (d3_mean xs) = Num 0 \<longrightarrow>
      \<not> isFinite (slope (multipleRegressionFit xs ys)) \<and>
      \<not> isFinite (intercept (multipleRegressionFit xs ys))) \<and>
   ((\<forall>x\<in>set xs. x = c) \<and> d3_mean xs = Num c \<longrightarrow> ssxxOf xs (d3_mean xs) = Num 0)"
proof (intro conjI impI)
  assume "ssxxOf (map fst data) (d3_mean (map fst data)) = Num 0"
  note l = linearRegressionFit_zero_ssxx [OF this]
  from l show "\<not> isFinite (slope (linearRegressionFit data))" ..
  from l show "\<not> isFinite (intercept (linearRegressionFit data))" ..
next
  assume "ssxxOf xs (d3_mean xs) = Num 0"
  note m = multipleRegressionFit_zero_ssxx [OF this, of ys]
  from m show "\<not> isFinite (slope (multipleRegressionFit xs ys))" ..
  from m show "\<not> isFinite (intercept (multipleRegressionFit xs ys))" ..
next
  assume h: "(\<forall>x\<in>set xs. x = c) \<and> d3_mean xs = Num c"
  from conjunct1 [OF h] have "ssxxOf xs (Num c) = Num 0" by (rule ssxxOf_constant)
  then show "ssxxOf xs (d3_mean xs) = Num 0" by (simp only: conjunct2 [OF h])
qed

theorem degenerate_fit_not_finite_witness:
  "(5::real) \<in> set [5, 5, 5] \<and> set [5, 5, 5 :: real] = {5} \<and>
   map fst [(5::real, 1::real), (5, 2), (5, 4)] = [5, 5, 5] \<and>
   d3_mean [5, 5, 5] = Num 5 \<and>
   ssxxOf [5, 5, 5] (d3_mean [5, 5, 5]) = Num 0 \<and>
   \<not> isFinite (slope (linearRegressionFit [(5, 1), (5, 2), (5, 4)])) \<and>
   \<not> isFinite (intercept (linearRegressionFit [(5, 1), (5, 2), (5, 4)])) \<and>
   \<not> isFinite (slope (multipleRegressionFit [5, 5, 5] [1, 2, 4])) \<and>
   \<not> isFinite (intercept (multipleRegressionFit [5, 5, 5] [1, 2, 4]))"
proof -
  let ?data = "[(5::real, 1::real), (5, 2), (5, 4)]"
  let ?xs = "[5, 5, 5 :: real]" and ?ys = "[1, 2, 4 :: real]"
  have xs: "(5::real) \<in> set ?xs" "set ?xs = {5}" "map fst ?data = ?xs" by simp_all
  have mean: "d3_mean ?xs = Num 5" by (rule d3_mean_examples)
  have same: "\<forall>x\<in>set ?xs. x = 5" by simp
  note all = degenerate_fit_not_finite [of ?data ?xs ?ys 5]
  note c1 = conjunct1 [OF all]
  note c2 = conjunct1 [OF conjunct2 [OF all]]
  note c3 = conjunct2 [OF conjunct2 [OF all]]
  note zero = c3 [THEN mp, OF conjI [OF same mean]]
  from zero have "ssxxOf (map fst ?data) (d3_mean (map fst ?data)) = Num 0"
    by (simp only: xs(3))
  note lf = c1 [THEN mp, OF this]
  note mf = c2 [THEN mp, OF zero]
  from xs mean zero lf mf show ?thesis by (intro conjI) (elim conjE, assumption)+
qed

section \<open>Claims on the generators\<close>

text \<open>
  What the generator does: the survival time is
  \<open>max(1, 60 - age / 10 - stage \<sqdot> 6 + 20u)\<close> for the third draw \<open>u\<close>, and the sample is
  censored exactly when the fourth draw is above 0.3.
\<close>

lemma cancerSurvivalSample_fields:
  "cancerSurvivalSample draws pos = (s, pos') \<Longrightarrow>
   age s = 40 + draws pos * 40 \<and>
   stage s = \<lfloor>draws (pos + 1) * 4\<rfloor> + 1 \<and>
   survivalTime s = Some (max 1 (60 - age s / 10 - of_int (stage s) * 6 + draws (pos + 2) * 20)) \<and>
   eventTime s = None \<and>
   censored s = (3 / 10 < draws (pos + 3)) \<and>
   pos' = pos + 4"
  by (auto simp: cancerSurvivalSample_def Let_def)

text \<open>
  Of the draws in \<open>[0, 1)\<close>, those that make a sample censored are the interval
  \<open>(0.3, 1)\<close>, of length 0.7.
\<close>

lemma cancerSurvivalSample_censoring_draws:
  "{u. 0 \<le> u \<and> u < 1 \<and> censored (fst (cancerSurvivalSample (\<lambda>i. u) pos))} = {3 / 10 <..< 1}"
  by (auto simp: cancerSurvivalSample_def Let_def)

text \<open>The generated data set has 100 samples and is sorted ascending by survival time.\<close>

lemma set_insertBy: "set (insertBy le v vs) = insert v (set vs)"
  by (induction vs) auto

lemma set_sortBy: "set (sortBy le vs) = set vs"
  by (induction vs) (simp_all add: set_insertBy)

lemma length_insertBy: "length (insertBy le v vs) = Suc (length vs)"
  by (induction vs) simp_all

lemma length_sortBy: "length (sortBy le vs) = length vs"
  by (induction vs) (simp_all add: length_insertBy)

lemma sorted_insertBy:
  assumes "\<forall>d\<in>set (v # vs). survivalTime d \<noteq> None"
    and "sorted_wrt bySurvivalTime vs"
  shows "sorted_wrt bySurvivalTime (insertBy bySurvivalTime v vs)"
  using assms
proof (induction vs)
  case Nil
  then show ?case by simp
next
  case (Cons w ws)
  show ?case
  proof (cases "bySurvivalTime v w")
    case True
    have "\<forall>u\<in>set ws. bySurvivalTime v u"
    proof
      fix u assume u: "u \<in> set ws"
      with Cons.prems(2) have "bySurvivalTime w u" by simp
      with True Cons.prems(1) u show "bySurvivalTime v u"
        by (auto simp: bySurvivalTime_def split: option.splits)
    qed
    with True Cons.prems(2) show ?thesis by simp
  next
    case False
    with Cons.prems(1) have wv: "bySurvivalTime w v"
      by (auto simp: bySurvivalTime_def split: option.splits)
    from Cons.prems have "sorted_wrt bySurvivalTime (insertBy bySurvivalTime v ws)"
      by (intro Cons.IH) simp_all
    with False wv Cons.prems(2) show ?thesis
      by (simp add: set_insertBy)
  qed
qed

lemma sorted_sortBy:
  "\<forall>d\<in>set vs. survivalTime d \<noteq> None \<Longrightarrow> sorted_wrt bySurvivalTime (sortBy bySurvivalTime vs)"
  by (induction vs) (simp_all add: sorted_insertBy set_sortBy)

lemma arrayFrom_cancerSurvival:
  "arrayFrom n cancerSurvivalSample draws pos = (vs, pos') \<Longrightarrow>
   length vs = n \<and> pos' = pos + 4 * n \<and>
   (\<forall>d\<in>set vs. \<exists>t. survivalTime d = Some t \<and> 1 \<le> t \<and> eventTime d = None)"
proof (induction n arbitrary: pos vs pos')
  case 0
  then show ?case by simp
next
  case (Suc n)
  obtain v p1 where g: "cancerSurvivalSample draws pos = (v, p1)" by force
  obtain ws p2 where r: "arrayFrom n cancerSurvivalSample draws p1 = (ws, p2)" by force
  from Suc.prems g r have vs: "vs = v # ws" "pos' = p2" by simp_all
  from cancerSurvivalSample_fields [OF g]
  have v: "\<exists>t. survivalTime v = Some t \<and> 1 \<le> t \<and> eventTime v = None" "p1 = pos + 4"
    by simp_all
  from Suc.IH [OF r] v vs show ?case by simp
qed

lemma cancerSurvivalData_sorted:
  assumes "cancerSurvivalData draws pos = (data, pos')"
  shows "length data = 100 \<and> sorted_wrt bySurvivalTime data \<and> sortedByTime data \<and> pos' = pos + 400"
proof -
  obtain vs p where a: "arrayFrom 100 cancerSurvivalSample draws pos = (vs, p)" by force
  with assms have d: "data = sortBy bySurvivalTime vs" "pos' = p"
    by (simp_all add: cancerSurvivalData_def)
  note f = arrayFrom_cancerSurvival [OF a]
  from f have some: "\<forall>d\<in>set vs. survivalTime d \<noteq> None" by auto
  then have s: "sorted_wrt bySurvivalTime data" unfolding d by (rule sorted_sortBy)
  have rt: "\<forall>d\<in>set data. \<exists>t. recordTime d = Some t \<and> survivalTime d = Some t"
    using f unfolding d set_sortBy by (auto simp: recordTime_def jsOr_def)
  have "sortedByTime data"
    unfolding sortedByTime_def
  proof (rule sorted_wrt_mono_rel [OF _ s])
    fix a b assume ab: "a \<in> set data" "b \<in> set data" and le: "bySurvivalTime a b"
    from rt ab(1) obtain s where s: "recordTime a = Some s" "survivalTime a = Some s" by blast
    from rt ab(2) obtain t where t: "recordTime b = Some t" "survivalTime b = Some t" by blast
    from le show "case (recordTime a, recordTime b) of
        (Some s, Some t) \<Rightarrow> s \<le> t | _ \<Rightarrow> False"
      by (simp add: bySurvivalTime_def s t)
  qed
  with s f d show ?thesis by (simp add: length_sortBy)
qed

text \<open>
  C7 says that a sample is censored with probability 0.3, and the comment in the source
  says "30% censoring rate"; the code censors when the draw is above 0.3, that is with
  probability 0.7. Evaluated on a source whose draws are all 0.5: the survival time
  follows the formula of C7 (\<open>max 1 (60 - 6 - 18 + 10) = 46\<close>), and the sample is
  censored, as for every draw in \<open>(0.3, 1)\<close>.
\<close>

theorem cancerSurvival_censoring_evaluated:
  "cancerSurvivalSample (drawsFrom [1 / 2, 1 / 2, 1 / 2, 1 / 2] 0) 0 =
     (\<lparr>survivalTime = Some 46, eventTime = None, censored = True, age = 60, stage = 3\<rparr>, 4)"
  by (simp add: cancerSurvivalSample_def drawsFrom_def Let_def)

text \<open>
  The generator of PoissonRegression.js: whenever it returns, the infection count is the
  non-negative result of \<^verbatim>\<open>poissonSample\<close> at the rate
  \<open>(bedCount / 20) \<sqdot> (1 - staffRatio)\<close> of the same sample, and it returns exactly when
  \<^verbatim>\<open>poissonSample\<close> does.
\<close>

lemma hospitalInfectionsSample_poisson:
  assumes "hospitalInfectionsSample draws pos = Some (s, pos')"
  shows "bedCount s = \<lfloor>10 + draws pos * 90\<rfloor> \<and>
         staffRatio s = 2 / 10 + draws (pos + 1) * (5 / 10) \<and>
         poissonSample (of_int (bedCount s) / 20 * (1 - staffRatio s)) draws (pos + 2)
           = Some (infections s, pos') \<and>
         0 \<le> infections s"
proof -
  let ?lam = "of_int \<lfloor>10 + draws pos * 90\<rfloor> / 20 * (1 - (2 / 10 + draws (pos + 1) * (5 / 10)))"
  from assms obtain k where k: "poissonSample ?lam draws (pos + 2) = Some (k, pos')"
    and s: "s = \<lparr>bedCount = \<lfloor>10 + draws pos * 90\<rfloor>,
                  staffRatio = 2 / 10 + draws (pos + 1) * (5 / 10), infections = k\<rparr>"
    by (auto simp: hospitalInfectionsSample_def Let_def split: option.splits)
  from poissonSample_value [OF k] have "0 \<le> k" by (rule conjunct1)
  with k s show ?thesis by simp
qed

lemma hospitalInfectionsSample_returns:
  "(\<exists>r. hospitalInfectionsSample draws pos = Some r) \<longleftrightarrow>
   (\<exists>r. poissonSample (of_int \<lfloor>10 + draws pos * 90\<rfloor> / 20
           * (1 - (2 / 10 + draws (pos + 1) * (5 / 10)))) draws (pos + 2) = Some r)"
  by (auto simp: hospitalInfectionsSample_def Let_def split: option.splits)

text \<open>
  The generator of Home.js computes the same rate and then takes
  \<open>\<lfloor>u \<sqdot> \<lambda> \<sqdot> 10\<rfloor>\<close> for one more draw \<open>u\<close>.
\<close>

lemma homeHospitalInfectionsSample_fields:
  assumes "homeHospitalInfectionsSample draws pos = (s, pos')"
  shows "bedCount s = \<lfloor>10 + draws pos * 90\<rfloor> \<and>
         staffRatio s = 2 / 10 + draws (pos + 1) * (5 / 10) \<and>
         infections s = \<lfloor>draws (pos + 2) * (of_int (bedCount s) / 20 * (1 - staffRatio s)) * 10\<rfloor> \<and>
         pos' = pos + 3"
  using assms by (auto simp: homeHospitalInfectionsSample_def Let_def)

text \<open>
  At the rate 2.2, \<open>L\<close> is at most 0.25: the first draw 0.5 leaves the product above \<open>L\<close>
  and the second draw 0 ends the loop.
\<close>

lemma exp_rate_example: "exp (- (11 / 5 :: real)) \<le> pow2 (- 2)"
proof -
  have "(21 / 10 :: real) = 1 + 11 / 10" by simp
  also have "\<dots> \<le> exp (11 / 10)" by (rule exp_ge_add_one_self)
  finally have "(21 / 10 :: real) ^ 2 \<le> exp (11 / 10) ^ 2" by (rule power_mono) simp
  also have "\<dots> = exp (of_nat 2 * (11 / 10))" by (simp only: exp_of_nat_mult)
  also have "\<dots> = exp (11 / 5)" by simp
  finally have "(4::real) \<le> exp (11 / 5)" by (simp add: power2_eq_square)
  have "exp (- (11 / 5) :: real) = inverse (exp (11 / 5))" by (rule exp_minus)
  also from \<open>4 \<le> exp (11 / 5)\<close> have "\<dots> \<le> inverse 4" by (rule le_imp_inverse_le) simp
  also have "\<dots> = pow2 (- 2)" by (simp add: pow2_def)
  finally show ?thesis .
qed

lemma poissonSample_example:
  "poissonSample (11 / 5) (drawsFrom [1 / 2, 0, 1 / 2, 0] 0) 2 = Some (1, 4)"
proof -
  let ?d = "drawsFrom [1 / 2, 0, 1 / 2, 0] 0"
  have d2: "?d 2 = 1 / 2" and d3: "?d (Suc 2) = 0" by (simp_all add: drawsFrom_def)
  have "0 \<le> exp (- (11 / 5) :: real)" by simp
  from fl64_le_pow2 [OF this exp_rate_example] obtain l where
    l: "fl64 (exp (- (11 / 5))) = Num l" "0 \<le> l" "l \<le> pow2 (- 2)" by auto
  have L: "mathExp (jsNeg (Num (11 / 5))) = Num l" using l(1) by simp
  have q: "pow2 (- 2) = 1 / 4" by (simp add: pow2_def)
  have h: "pow2 (- 1) = 1 / 2" by (simp add: pow2_def)
  have "fl64 (pow2 (- 1)) = Num (pow2 (- 1))" by (rule fl64_pow2) simp_all
  then have p1: "jsMul (Num 1) (Num (?d 2)) = Num (1 / 2)" by (simp add: d2 h)
  have p2: "jsMul (Num (1 / 2)) (Num (?d (Suc 2))) = Num 0" unfolding d3 by simp
  from l(3) q have "l < 1 / 2" by simp
  then have above: "jsGreater (jsMul (Num 1) (Num (?d 2))) (Num l)" by (simp only: p1 jsGreater.simps)
  from l(2) have below: "\<not> jsGreater (jsMul (Num (1 / 2)) (Num (?d (Suc 2)))) (Num l)"
    by (simp only: p2 jsGreater.simps)
  have "poissonLoop (Num l) ?d 0 (Num 1) 2
      = poissonLoop (Num l) ?d (jsIncr 0) (jsMul (Num 1) (Num (?d 2))) (Suc 2)"
    using above by (rule poissonLoop_continue)
  also have "\<dots> = poissonLoop (Num l) ?d (jsIncr 0) (Num (1 / 2)) (Suc 2)"
    by (simp only: p1)
  also have "\<dots> = Some (jsIncr (jsIncr 0), Suc (Suc 2))"
    using below by (rule poissonLoop_exit)
  finally show ?thesis by (simp add: poissonSample_def l(1) jsIncr_def)
qed

text \<open>
  C8 says that every hospital-infections generator draws the count with the Poisson
  sampler. On the draws 0.5, 0, 0.5, 0 both generators make a sample with 55 beds, staff
  ratio 0.2 and rate 2.2; the generator of Home.js returns 11 infections from three
  draws, while the generator of PoissonRegression.js returns the result of
  \<^verbatim>\<open>poissonSample\<close>, which is 1, from four.
\<close>

theorem homeHospitalInfections_not_sampled:
  "homeHospitalInfectionsSample (drawsFrom [1 / 2, 0, 1 / 2, 0] 0) 0 =
     (\<lparr>bedCount = 55, staffRatio = 1 / 5, infections = 11\<rparr>, 3) \<and>
   hospitalInfectionsSample (drawsFrom [1 / 2, 0, 1 / 2, 0] 0) 0 =
     Some (\<lparr>bedCount = 55, staffRatio = 1 / 5, infections = 1\<rparr>, 4) \<and>
   poissonSample (11 / 5) (drawsFrom [1 / 2, 0, 1 / 2, 0] 0) 2 = Some (1, 4)"
proof -
  let ?d = "drawsFrom [1 / 2, 0, 1 / 2, 0] 0"
  have d: "?d 0 = 1 / 2" "?d (Suc 0) = 0" "?d (Suc (Suc 0)) = 1 / 2"
    by (simp_all add: drawsFrom_def)
  have home: "homeHospitalInfectionsSample ?d 0 =
     (\<lparr>bedCount = 55, staffRatio = 1 / 5, infections = 11\<rparr>, 3)"
    unfolding homeHospitalInfectionsSample_def Let_def by (simp add: d)
  have p: "poissonSample (11 / 5) ?d (0 + 2) = Some (1, 4)"
    unfolding add_0 by (rule poissonSample_example)
  have b: "\<lfloor>10 + ?d 0 * 90\<rfloor> = 55" by (simp add: d)
  have st: "2 / 10 + ?d (0 + 1) * (5 / 10) = 1 / 5" by (simp add: d)
  have lam: "real_of_int 55 / 20 * (1 - 1 / 5) = 11 / 5" by simp
  have page: "hospitalInfectionsSample ?d 0 =
     Some (\<lparr>bedCount = 55, staffRatio = 1 / 5, infections = 1\<rparr>, 4)"
    unfolding hospitalInfectionsSample_def Let_def b st lam p by simp
  from home page poissonSample_example show ?thesis by (intro conjI)
qed

end
